theory Spec2Isabelle
  imports Main "HOL-Library.Product_Lexorder" "HOL-Library.Multiset"
begin

section \<open>Values of the domain layer\<close>

text \<open>
  The event store of \<^verbatim>\<open>src/domain/events_store.py\<close> handles values of three library
  types that JSON cannot hold: \<^verbatim>\<open>uuid.UUID\<close>, \<^verbatim>\<open>decimal.Decimal\<close> and
  \<^verbatim>\<open>datetime.datetime\<close>. The store never computes with them; the only operation it
  applies is the conversion to text (\<^verbatim>\<open>str(obj)\<close>, \<^verbatim>\<open>obj.isoformat()\<close>). Each value is
  therefore represented by that text, and the conversion reads it off. A float is
  represented by its \<^verbatim>\<open>repr\<close>, the text \<^verbatim>\<open>json\<close> writes and reads back.
\<close>

datatype uuid = UUID string
datatype decimal = Decimal string
datatype datetime = Datetime string
datatype pyfloat = Float string

fun str_uuid :: "uuid \<Rightarrow> string" where
  "str_uuid (UUID s) = s"

fun str_decimal :: "decimal \<Rightarrow> string" where
  "str_decimal (Decimal s) = s"

fun isoformat :: "datetime \<Rightarrow> string" where
  "isoformat (Datetime s) = s"

text \<open>\<^verbatim>\<open>EventMetadata\<close> of \<^verbatim>\<open>src/domain/__init__.py\<close>, a frozen dataclass.\<close>

record EventMetadata =
  event_id :: uuid
  correlation_id :: uuid
  timestamp :: datetime
  causation_id :: "uuid option"
  user_id :: "uuid option"
  schema_version :: int

text \<open>
  A Python value that can occur as a field of a domain event. \<open>VObject c attrs\<close> is an
  instance of a class \<open>c\<close> that derives from none of the types above it in the list, with
  the attributes \<open>attrs\<close>. \<open>VSub c base attrs\<close> is an instance of a class \<open>c\<close> derived
  from a type JSON knows (\<^verbatim>\<open>str\<close>, \<^verbatim>\<open>int\<close>, \<^verbatim>\<open>float\<close>, \<^verbatim>\<open>list\<close>, \<^verbatim>\<open>tuple\<close>,
  \<^verbatim>\<open>dict\<close>): \<open>base\<close> is the object as a value of that type, \<open>attrs\<close> are its further
  attributes. The enums of \<^verbatim>\<open>src/domain/__init__.py\<close> derive from \<^verbatim>\<open>str\<close>: the member
  \<^verbatim>\<open>Currency.NOK\<close> is \<open>VSub ''Currency'' (VStr ''NOK'') [(''name'', VStr ''NOK''), (''value'',
  VStr ''NOK'')]\<close>. Dictionaries have string keys, as the dictionaries built by
  \<^verbatim>\<open>dataclasses.asdict\<close> do.
\<close>

datatype pyval =
    VNone
  | VBool bool
  | VInt int
  | VFloat pyfloat
  | VStr string
  | VList "pyval list"
  | VTuple "pyval list"
  | VDict "(string \<times> pyval) list"
  | VUUID uuid
  | VDecimal decimal
  | VDatetime datetime
  | VMetadata EventMetadata
  | VObject string "(string \<times> pyval) list"
  | VSub string pyval "(string \<times> pyval) list"

text \<open>A JSON document: the text produced by \<^verbatim>\<open>json.dumps\<close>, as its syntax tree.\<close>

datatype json =
    JNull
  | JBool bool
  | JInt int
  | JFloat pyfloat
  | JStr string
  | JArr "json list"
  | JObj "(string \<times> json) list"

datatype error =
    TypeError
  | ConcurrencyError uuid int int
  | AggregateNotFoundError uuid string
  | UniqueViolationError
  | CheckViolationError
  | InvalidRowCountInLimitClauseError
  | KafkaError
  | PostgresError
  | CancelledError

text \<open>
  \<^verbatim>\<open>except Exception\<close> catches every exception above but
  \<^verbatim>\<open>asyncio.CancelledError\<close>, which derives from \<^verbatim>\<open>BaseException\<close> only.
\<close>

fun is_Exception :: "error \<Rightarrow> bool" where
  "is_Exception CancelledError = False"
| "is_Exception e = True"


section \<open>The codec: \<^verbatim>\<open>EventEncoder\<close>, \<^verbatim>\<open>json.dumps\<close>, \<^verbatim>\<open>json.loads\<close>\<close>

definition opt_uuid :: "uuid option \<Rightarrow> pyval" where
  "opt_uuid u = (case u of None \<Rightarrow> VNone | Some x \<Rightarrow> VUUID x)"

text \<open>\<^verbatim>\<open>dataclasses.asdict\<close> on the metadata: one entry per field, in declaration order.\<close>

definition asdict_metadata :: "EventMetadata \<Rightarrow> pyval" where
  "asdict_metadata m = VDict
     [(''event_id'', VUUID (event_id m)),
      (''correlation_id'', VUUID (correlation_id m)),
      (''timestamp'', VDatetime (timestamp m)),
      (''causation_id'', opt_uuid (causation_id m)),
      (''user_id'', opt_uuid (user_id m)),
      (''schema_version'', VInt (schema_version m))]"

text \<open>
  The recursion of \<^verbatim>\<open>asdict\<close> below the top level: a dataclass instance becomes a
  dictionary, lists, tuples and dictionaries (also of a derived class, which is kept) are
  rebuilt with their elements converted, anything else is copied.
\<close>

fun asdict_inner :: "pyval \<Rightarrow> pyval" where
  "asdict_inner (VMetadata m) = asdict_metadata m"
| "asdict_inner (VList xs) = VList (map asdict_inner xs)"
| "asdict_inner (VTuple xs) = VTuple (map asdict_inner xs)"
| "asdict_inner (VDict kvs) = VDict (map (\<lambda>(k, v). (k, asdict_inner v)) kvs)"
| "asdict_inner (VSub c base attrs) = VSub c (asdict_inner base) attrs"
| "asdict_inner v = v"

text \<open>
  \<^verbatim>\<open>EventEncoder.default\<close>, branch by branch. \<^verbatim>\<open>hasattr(obj, 'value')\<close> holds of an
  object that has an attribute of that name (the values of the built-in types have none);
  the last equation is \<^verbatim>\<open>super().default(obj)\<close>, which raises \<^verbatim>\<open>TypeError\<close>.
\<close>

fun EventEncoder_default :: "pyval \<Rightarrow> error + pyval" where
  "EventEncoder_default (VUUID u) = Inr (VStr (str_uuid u))"
| "EventEncoder_default (VDecimal d) = Inr (VStr (str_decimal d))"
| "EventEncoder_default (VMetadata m) = Inr (asdict_metadata m)"
| "EventEncoder_default (VDatetime t) = Inr (VStr (isoformat t))"
| "EventEncoder_default (VObject c attrs) =
     (case map_of attrs ''value'' of Some v \<Rightarrow> Inr v | None \<Rightarrow> Inl TypeError)"
| "EventEncoder_default (VSub c base attrs) =
     (case map_of attrs ''value'' of Some v \<Rightarrow> Inr v | None \<Rightarrow> Inl TypeError)"
| "EventEncoder_default v = Inl TypeError"

text \<open>Evaluating a list of results from left to right; the first exception wins.\<close>

fun sequence :: "('e + 'a) list \<Rightarrow> 'e + 'a list" where
  "sequence [] = Inr []"
| "sequence (x # xs) =
     (case x of Inl e \<Rightarrow> Inl e
      | Inr a \<Rightarrow> (case sequence xs of Inl e \<Rightarrow> Inl e | Inr as \<Rightarrow> Inr (a # as)))"

text \<open>A measure for the encoder: what \<^verbatim>\<open>default\<close> returns weighs less than its argument.\<close>

fun weight :: "pyval \<Rightarrow> nat" where
  "weight (VList xs) = Suc (sum_list (map weight xs))"
| "weight (VTuple xs) = Suc (sum_list (map weight xs))"
| "weight (VDict kvs) = Suc (sum_list (map (\<lambda>(k, v). weight v) kvs))"
| "weight (VObject c attrs) = Suc (sum_list (map (\<lambda>(k, v). weight v) attrs))"
| "weight (VSub c base attrs) = Suc (weight base)"
| "weight (VMetadata m) = 20"
| "weight (VUUID u) = 2"
| "weight (VDecimal d) = 2"
| "weight (VDatetime t) = 2"
| "weight v = 1"

text \<open>
  \<^verbatim>\<open>json.dumps(v, cls=EventEncoder)\<close>: the values of the types JSON knows are
  written directly (a tuple as an array), and so are the instances of classes derived from
  those types, as the value of the type: for them \<^verbatim>\<open>default\<close> is not called. For any
  other value the encoder calls \<^verbatim>\<open>default\<close> and writes what it returns.
\<close>

function json_dumps :: "pyval \<Rightarrow> error + json" where
  "json_dumps VNone = Inr JNull"
| "json_dumps (VBool b) = Inr (JBool b)"
| "json_dumps (VInt i) = Inr (JInt i)"
| "json_dumps (VFloat f) = Inr (JFloat f)"
| "json_dumps (VStr s) = Inr (JStr s)"
| "json_dumps (VList xs) =
     (case sequence (map json_dumps xs) of Inl e \<Rightarrow> Inl e | Inr js \<Rightarrow> Inr (JArr js))"
| "json_dumps (VTuple xs) =
     (case sequence (map json_dumps xs) of Inl e \<Rightarrow> Inl e | Inr js \<Rightarrow> Inr (JArr js))"
| "json_dumps (VDict kvs) =
     (case sequence (map (\<lambda>(k, v). case json_dumps v of Inl e \<Rightarrow> Inl e | Inr j \<Rightarrow> Inr (k, j)) kvs) of
        Inl e \<Rightarrow> Inl e | Inr items \<Rightarrow> Inr (JObj items))"
| "json_dumps (VSub c base attrs) = json_dumps base"
| "json_dumps (VUUID u) =
     (case EventEncoder_default (VUUID u) of Inl e \<Rightarrow> Inl e | Inr v \<Rightarrow> json_dumps v)"
| "json_dumps (VDecimal d) =
     (case EventEncoder_default (VDecimal d) of Inl e \<Rightarrow> Inl e | Inr v \<Rightarrow> json_dumps v)"
| "json_dumps (VDatetime t) =
     (case EventEncoder_default (VDatetime t) of Inl e \<Rightarrow> Inl e | Inr v \<Rightarrow> json_dumps v)"
| "json_dumps (VMetadata m) =
     (case EventEncoder_default (VMetadata m) of Inl e \<Rightarrow> Inl e | Inr v \<Rightarrow> json_dumps v)"
| "json_dumps (VObject c attrs) =
     (case EventEncoder_default (VObject c attrs) of Inl e \<Rightarrow> Inl e | Inr v \<Rightarrow> json_dumps v)"
  by pat_completeness auto

lemma weight_mem: "x \<in> set xs \<Longrightarrow> weight x \<le> sum_list (map weight xs)"
  by (induction xs) auto

lemma weight_mem_snd: "(k, v) \<in> set kvs \<Longrightarrow> weight v \<le> sum_list (map (\<lambda>(k, v). weight v) kvs)"
  by (induction kvs) auto

lemma weight_opt_uuid: "weight (opt_uuid u) \<le> 2"
  by (cases u) (simp_all add: opt_uuid_def)

lemma weight_asdict_metadata: "weight (asdict_metadata m) < 20"
  using weight_opt_uuid [of "causation_id m"] weight_opt_uuid [of "user_id m"]
  by (simp add: asdict_metadata_def)

termination json_dumps
proof (relation "measure weight")
  show "wf (measure weight)" by simp
qed (auto simp: weight_asdict_metadata less_Suc_eq_le
       dest: weight_mem weight_mem_snd map_of_SomeD split: option.splits)

text \<open>\<^verbatim>\<open>json.loads\<close>: an array comes back as a list, an object as a dictionary.\<close>

fun json_loads :: "json \<Rightarrow> pyval" where
  "json_loads JNull = VNone"
| "json_loads (JBool b) = VBool b"
| "json_loads (JInt i) = VInt i"
| "json_loads (JFloat f) = VFloat f"
| "json_loads (JStr s) = VStr s"
| "json_loads (JArr js) = VList (map json_loads js)"
| "json_loads (JObj items) = VDict (map (\<lambda>(k, j). (k, json_loads j)) items)"

section \<open>Domain events\<close>

text \<open>
  A \<^verbatim>\<open>DomainEvent\<close>: the two fields of the base class, then the fields the subclass
  declares, in declaration order; \<open>class_name\<close> is \<^verbatim>\<open>event.__class__.__name__\<close>.
\<close>

record DomainEvent =
  class_name :: string
  aggregate_id :: uuid
  metadata :: EventMetadata
  event_fields :: "(string \<times> pyval) list"

definition asdict :: "DomainEvent \<Rightarrow> pyval" where
  "asdict event = VDict
     ((''aggregate_id'', VUUID (aggregate_id event)) #
      (''metadata'', asdict_metadata (metadata event)) #
      map (\<lambda>(k, v). (k, asdict_inner v)) (event_fields event))"

section \<open>The database\<close>

text \<open>
  The tables \<^verbatim>\<open>events\<close> and \<^verbatim>\<open>outbox\<close>, with the columns the statements of
  \<^verbatim>\<open>events_store.py\<close> name. \<^verbatim>\<open>events.created_at\<close> is only stored and returned, so it
  keeps the Python value; \<^verbatim>\<open>outbox.id\<close> and \<^verbatim>\<open>outbox.created_at\<close> are filled in by
  the server and compared by \<^verbatim>\<open>ORDER BY\<close>, so they are numbers (an instant on the
  server's clock). In \<^verbatim>\<open>append_events\<close> and \<^verbatim>\<open>load_events\<close> a statement fails
  only when the table refuses the row (see \<open>insert_event\<close>). In \<^verbatim>\<open>process_outbox\<close> the
  server refuses a negative \<^verbatim>\<open>LIMIT\<close>, and the \<^verbatim>\<open>DELETE\<close>, which stands in the
  \<^verbatim>\<open>try\<close> block, may raise (see \<open>delete_outbox\<close>).
\<close>

record event_row =
  e_event_id :: uuid
  e_aggregate_id :: uuid
  e_aggregate_type :: string
  e_event_type :: string
  e_event_data :: json
  e_version :: int
  e_tenant_id :: uuid
  e_created_at :: datetime

record outbox_row =
  o_id :: int
  o_event_id :: uuid
  o_aggregate_type :: string
  o_event_type :: string
  o_event_data :: json
  o_tenant_id :: uuid
  o_created_at :: int

record database =
  events :: "event_row list"
  outbox :: "outbox_row list"
  outbox_id_seq :: int
  now :: int

definition empty_database :: "int \<Rightarrow> database" where
  "empty_database t = \<lparr>events = [], outbox = [], outbox_id_seq = 1, now = t\<rparr>"

text \<open>
  \<^verbatim>\<open>async with conn.transaction()\<close>: the body runs on the connection; when it raises,
  the rows it wrote are discarded and the exception goes on to the caller. A sequence is not
  transactional: the numbers the body drew stay drawn.
\<close>

definition transaction ::
  "(database \<Rightarrow> (error + 'a) \<times> database) \<Rightarrow> database \<Rightarrow> (error + 'a) \<times> database" where
  "transaction body db =
     (case body db of
        (Inl e, conn) \<Rightarrow> (Inl e, db\<lparr>outbox_id_seq := outbox_id_seq conn\<rparr>)
      | (Inr r, conn) \<Rightarrow> (Inr r, conn))"

text \<open>
  \<^verbatim>\<open>ORDER BY col\<close>: the rows come sorted by the column; SQL leaves the order of rows
  with equal values to the server, so that order is the parameter \<open>tie\<close> (any rank the server
  gives the rows).
\<close>

definition order_by :: "('r \<Rightarrow> 'k::linorder) \<Rightarrow> ('r \<Rightarrow> nat) \<Rightarrow> 'r list \<Rightarrow> 'r list" where
  "order_by col tie rows = sort_key (\<lambda>r. (col r, tie r)) rows"

text \<open>The rows of one stream: \<^verbatim>\<open>WHERE aggregate_id = $1 AND tenant_id = $2\<close>.\<close>

definition stream :: "database \<Rightarrow> uuid \<Rightarrow> uuid \<Rightarrow> event_row list" where
  "stream db a t = filter (\<lambda>r. e_aggregate_id r = a \<and> e_tenant_id r = t) (events db)"

text \<open>\<^verbatim>\<open>SELECT COALESCE(MAX(version), 0)\<close> over the stream.\<close>

definition current_version_of :: "database \<Rightarrow> uuid \<Rightarrow> uuid \<Rightarrow> int" where
  "current_version_of db a t =
     (case map e_version (stream db a t) of [] \<Rightarrow> 0 | v # vs \<Rightarrow> fold max vs v)"

text \<open>
  Modelled from the spec: the table declarations are not among the sources. The
  canonical schema of the specification gives \<^verbatim>\<open>events\<close> the constraints
  \<^verbatim>\<open>CHECK (version > 0)\<close>, \<^verbatim>\<open>PRIMARY KEY (event_id)\<close> and
  \<^verbatim>\<open>UNIQUE (tenant_id, aggregate_id, version)\<close>; an insert that breaks one raises.
\<close>

definition insert_event :: "database \<Rightarrow> event_row \<Rightarrow> (error + unit) \<times> database" where
  "insert_event db row =
     (if e_version row \<le> 0 then (Inl CheckViolationError, db)
      else if e_event_id row \<in> set (map e_event_id (events db)) then (Inl UniqueViolationError, db)
      else if (e_tenant_id row, e_aggregate_id row, e_version row)
                \<in> set (map (\<lambda>r. (e_tenant_id r, e_aggregate_id r, e_version r)) (events db))
           then (Inl UniqueViolationError, db)
      else (Inr (), db\<lparr>events := events db @ [row]\<rparr>))"

text \<open>
  Modelled from the spec: the table declarations are not among the sources. The
  canonical schema of the specification makes \<^verbatim>\<open>outbox.id\<close> a \<^verbatim>\<open>BIGSERIAL\<close> and gives
  \<^verbatim>\<open>outbox.created_at\<close> the default \<^verbatim>\<open>now()\<close>, the time of the transaction; the
  statement of \<^verbatim>\<open>append_events\<close> supplies the other five columns.
\<close>

definition insert_outbox ::
  "database \<Rightarrow> uuid \<Rightarrow> string \<Rightarrow> string \<Rightarrow> json \<Rightarrow> uuid \<Rightarrow> database" where
  "insert_outbox db eid atype etype edata tid =
     db\<lparr>outbox := outbox db @
           [\<lparr>o_id = outbox_id_seq db, o_event_id = eid, o_aggregate_type = atype,
             o_event_type = etype, o_event_data = edata, o_tenant_id = tid,
             o_created_at = now db\<rparr>],
        outbox_id_seq := outbox_id_seq db + 1\<rparr>"

text \<open>
  \<^verbatim>\<open>DELETE FROM outbox WHERE id = $1\<close>. The statement may raise (a lock is not
  granted in time, the connection is lost, the task is cancelled): \<open>delete_raises i\<close> is what the
  statement for the id \<open>i\<close> raises on this connection, if anything; a statement that raises
  deletes nothing.
\<close>

definition delete_outbox ::
  "(int \<Rightarrow> error option) \<Rightarrow> database \<Rightarrow> int \<Rightarrow> (error + unit) \<times> database" where
  "delete_outbox delete_raises db i =
     (case delete_raises i of
        Some e \<Rightarrow> (Inl e, db)
      | None \<Rightarrow> (Inr (), db\<lparr>outbox := filter (\<lambda>r. o_id r \<noteq> i) (outbox db)\<rparr>))"

section \<open>\<^verbatim>\<open>EventStore\<close>\<close>

text \<open>
  The loop of \<^verbatim>\<open>append_events\<close> over \<^verbatim>\<open>new_events\<close>: the version is incremented,
  the event is encoded, one row goes into \<^verbatim>\<open>events\<close> and one into \<^verbatim>\<open>outbox\<close>. An
  exception (the encoder's \<^verbatim>\<open>TypeError\<close>, a constraint of the table) leaves the loop.
\<close>

fun append_loop ::
  "uuid \<Rightarrow> string \<Rightarrow> uuid \<Rightarrow> DomainEvent list \<Rightarrow> int \<Rightarrow> database \<Rightarrow> (error + int) \<times> database" where
  "append_loop aid atype tid [] new_version conn = (Inr new_version, conn)"
| "append_loop aid atype tid (event # rest) new_version conn =
     (let new_version = new_version + 1 in
      case json_dumps (asdict event) of
        Inl e \<Rightarrow> (Inl e, conn)
      | Inr event_data \<Rightarrow>
          (case insert_event conn
                  \<lparr>e_event_id = event_id (metadata event), e_aggregate_id = aid,
                   e_aggregate_type = atype, e_event_type = class_name event,
                   e_event_data = event_data, e_version = new_version, e_tenant_id = tid,
                   e_created_at = timestamp (metadata event)\<rparr> of
             (Inl e, conn1) \<Rightarrow> (Inl e, conn1)
           | (Inr _, conn1) \<Rightarrow>
               append_loop aid atype tid rest new_version
                 (insert_outbox conn1 (event_id (metadata event)) atype (class_name event)
                    event_data tid)))"

definition append_events ::
  "database \<Rightarrow> uuid \<Rightarrow> string \<Rightarrow> int \<Rightarrow> DomainEvent list \<Rightarrow> uuid \<Rightarrow> (error + int) \<times> database" where
  "append_events db aid atype expected_version new_events tid =
     transaction (\<lambda>conn.
       let current_version = current_version_of conn aid tid in
       if current_version \<noteq> expected_version
       then (Inl (ConcurrencyError aid expected_version current_version), conn)
       else append_loop aid atype tid new_events expected_version conn) db"

text \<open>The dictionary \<^verbatim>\<open>load_events\<close> builds for a row.\<close>

definition event_dict :: "event_row \<Rightarrow> pyval" where
  "event_dict row = VDict
     [(''event_id'', VUUID (e_event_id row)),
      (''event_type'', VStr (e_event_type row)),
      (''event_data'', json_loads (e_event_data row)),
      (''version'', VInt (e_version row)),
      (''created_at'', VDatetime (e_created_at row))]"

definition load_events ::
  "(event_row \<Rightarrow> nat) \<Rightarrow> database \<Rightarrow> uuid \<Rightarrow> string \<Rightarrow> uuid \<Rightarrow> error + pyval list" where
  "load_events tie db aid atype tid =
     (let rows = order_by e_version tie (stream db aid tid) in
      if rows = [] then Inl (AggregateNotFoundError aid atype)
      else Inr (map event_dict rows))"

section \<open>\<^verbatim>\<open>OutboxRelay\<close>\<close>

text \<open>
  The Kafka producer: every call of \<^verbatim>\<open>send_and_wait\<close> is recorded in \<open>calls\<close>;
  \<open>send_raises n m\<close> is what the call number \<open>n\<close>, with the message \<open>m\<close>, raises, and
  \<open>None\<close> when it returns (the broker acknowledged). Any behaviour of the bus is some
  \<open>send_raises\<close>.
\<close>

record kafka_message =
  topic :: string
  key :: string
  val :: json

record kafka_producer =
  calls :: "kafka_message list"
  send_raises :: "nat \<Rightarrow> kafka_message \<Rightarrow> error option"

definition send_and_wait :: "kafka_producer \<Rightarrow> kafka_message \<Rightarrow> (error + unit) \<times> kafka_producer" where
  "send_and_wait p m =
     (case send_raises p (length (calls p)) m of None \<Rightarrow> Inr () | Some e \<Rightarrow> Inl e,
      p\<lparr>calls := calls p @ [m]\<rparr>)"

text \<open>
  \<^verbatim>\<open>str.lower\<close>. A character of a string is a code point below 256; the letters with
  a lower case among them are \<^verbatim>\<open>A\<close> to \<^verbatim>\<open>Z\<close> (65 to 90) and the Latin-1 capitals 192
  to 222 without the multiplication sign 215, each 32 below its lower case.
\<close>

definition lower_char :: "char \<Rightarrow> char" where
  "lower_char c =
     (let n = of_char c :: nat in
      if (65 \<le> n \<and> n \<le> 90) \<or> (192 \<le> n \<and> n \<le> 222 \<and> n \<noteq> 215) then char_of (n + 32) else c)"

definition lower :: "string \<Rightarrow> string" where
  "lower s = map lower_char s"

definition message_of :: "outbox_row \<Rightarrow> kafka_message" where
  "message_of row =
     \<lparr>topic = ''finance.'' @ lower (o_aggregate_type row) @ ''.events'',
      key = str_uuid (o_event_id row),
      val = o_event_data row\<rparr>"

text \<open>
  The body of the \<^verbatim>\<open>try\<close> block of \<^verbatim>\<open>process_outbox\<close> for one row, up to the
  counter: the row is sent and, when the send returns, deleted. The send and the
  \<^verbatim>\<open>DELETE\<close> can both raise.
\<close>

definition publish_row ::
  "(int \<Rightarrow> error option) \<Rightarrow> outbox_row \<Rightarrow> database \<Rightarrow> kafka_producer
     \<Rightarrow> (error + unit) \<times> database \<times> kafka_producer" where
  "publish_row delete_raises row conn p =
     (case send_and_wait p (message_of row) of
        (Inl e, p1) \<Rightarrow> (Inl e, conn, p1)
      | (Inr _, p1) \<Rightarrow>
          (case delete_outbox delete_raises conn (o_id row) of
             (Inl e, conn1) \<Rightarrow> (Inl e, conn1, p1)
           | (Inr _, conn1) \<Rightarrow> (Inr (), conn1, p1)))"

text \<open>
  The loop of \<^verbatim>\<open>process_outbox\<close> over the fetched rows. When the body returns, the row
  is counted. When it raises an \<^verbatim>\<open>Exception\<close>, the \<^verbatim>\<open>except\<close> clause goes on to the
  next row; any other exception leaves the loop and the function.
\<close>

fun relay_loop ::
  "(int \<Rightarrow> error option) \<Rightarrow> outbox_row list \<Rightarrow> database \<Rightarrow> kafka_producer \<Rightarrow> int
     \<Rightarrow> (error + int) \<times> database \<times> kafka_producer" where
  "relay_loop delete_raises [] conn p processed_count = (Inr processed_count, conn, p)"
| "relay_loop delete_raises (row # rows) conn p processed_count =
     (case publish_row delete_raises row conn p of
        (Inr _, conn1, p1) \<Rightarrow> relay_loop delete_raises rows conn1 p1 (processed_count + 1)
      | (Inl e, conn1, p1) \<Rightarrow>
          if is_Exception e then relay_loop delete_raises rows conn1 p1 processed_count
          else (Inl e, conn1, p1))"

text \<open>
  \<^verbatim>\<open>ORDER BY created_at ASC LIMIT $1\<close>, as the statement of \<^verbatim>\<open>process_outbox\<close> has
  it. The server refuses a negative \<^verbatim>\<open>LIMIT\<close>.
\<close>

definition fetch_outbox :: "(outbox_row \<Rightarrow> nat) \<Rightarrow> database \<Rightarrow> int \<Rightarrow> outbox_row list" where
  "fetch_outbox tie db batch_size = take (nat batch_size) (order_by o_created_at tie (outbox db))"

definition process_outbox ::
  "(outbox_row \<Rightarrow> nat) \<Rightarrow> (int \<Rightarrow> error option) \<Rightarrow> database \<Rightarrow> kafka_producer \<Rightarrow> int
     \<Rightarrow> (error + int) \<times> database \<times> kafka_producer" where
  "process_outbox tie delete_raises db p batch_size =
     (if batch_size < 0 then (Inl InvalidRowCountInLimitClauseError, db, p)
      else
        let rows = fetch_outbox tie db batch_size in
        if rows = [] then (Inr 0, db, p)
        else relay_loop delete_raises rows db p 0)"

section \<open>Definitions for the statements\<close>

text \<open>
  The rows a successful run of the loop of \<^verbatim>\<open>append_events\<close> adds, given each
  event with its encoded payload: versions count up from \<open>v\<close>, the ids of the outbox
  rows from \<open>i\<close>.
\<close>

fun event_rows :: "uuid \<Rightarrow> string \<Rightarrow> uuid \<Rightarrow> int \<Rightarrow> (DomainEvent \<times> json) list \<Rightarrow> event_row list" where
  "event_rows aid atype tid v [] = []"
| "event_rows aid atype tid v ((event, d) # rest) =
     \<lparr>e_event_id = event_id (metadata event), e_aggregate_id = aid,
      e_aggregate_type = atype, e_event_type = class_name event,
      e_event_data = d, e_version = v + 1, e_tenant_id = tid,
      e_created_at = timestamp (metadata event)\<rparr> # event_rows aid atype tid (v + 1) rest"

fun outbox_rows :: "string \<Rightarrow> uuid \<Rightarrow> int \<Rightarrow> int \<Rightarrow> (DomainEvent \<times> json) list \<Rightarrow> outbox_row list" where
  "outbox_rows atype tid t i [] = []"
| "outbox_rows atype tid t i ((event, d) # rest) =
     \<lparr>o_id = i, o_event_id = event_id (metadata event), o_aggregate_type = atype,
      o_event_type = class_name event, o_event_data = d, o_tenant_id = tid,
      o_created_at = t\<rparr> # outbox_rows atype tid t (i + 1) rest"

text \<open>Example data: the fresh append of the specification's first scenario.\<close>

definition example_metadata :: EventMetadata where
  "example_metadata =
     \<lparr>event_id = UUID ''018f3a1c-0000-7000-8000-0000000000e1'',
      correlation_id = UUID ''018f3a1c-0000-7000-8000-0000000000c1'',
      timestamp = Datetime ''2024-05-02T10:15:30.250000+00:00'',
      causation_id = None, user_id = None, schema_version = 1\<rparr>"

definition account_created :: DomainEvent where
  "account_created =
     \<lparr>class_name = ''AccountCreated'',
      aggregate_id = UUID ''018f3a1c-0000-7000-8000-0000000000a1'',
      metadata = example_metadata,
      event_fields =
        [(''account_name'', VStr ''Ops''),
         (''account_type'',
          VSub ''AccountType'' (VStr ''checking'') [(''name'', VStr ''CHECKING''), (''value'', VStr ''checking'')]),
         (''currency'',
          VSub ''Currency'' (VStr ''NOK'') [(''name'', VStr ''NOK''), (''value'', VStr ''NOK'')]),
         (''initial_balance'', VDecimal (Decimal ''10000.00'')),
         (''organization_id'', VNone),
         (''department_id'', VNone)]\<rparr>"

definition account_renamed :: DomainEvent where
  "account_renamed =
     \<lparr>class_name = ''AccountRenamed'',
      aggregate_id = UUID ''018f3a1c-0000-7000-8000-0000000000a1'',
      metadata = example_metadata\<lparr>event_id := UUID ''018f3a1c-0000-7000-8000-0000000000e2''\<rparr>,
      event_fields = [(''old_name'', VStr ''Ops''), (''new_name'', VStr ''Operations'')]\<rparr>"

definition account_id :: uuid where
  "account_id = UUID ''018f3a1c-0000-7000-8000-0000000000a1''"

definition tenant_a :: uuid where
  "tenant_a = UUID ''00000000-0000-0000-0000-000000000001''"

definition tenant_b :: uuid where
  "tenant_b = UUID ''00000000-0000-0000-0000-000000000002''"

text \<open>The database after that append, of two events, at the server time 5.\<close>

definition two_events_db :: database where
  "two_events_db =
     snd (append_events (empty_database 5) account_id ''Account'' 0
            [account_created, account_renamed] tenant_a)"


text \<open>Encoding a value and decoding the result: \<^verbatim>\<open>json.loads(json.dumps(v, cls=EventEncoder))\<close>,
  what \<^verbatim>\<open>load_events\<close> returns as \<^verbatim>\<open>event_data\<close> for a payload \<^verbatim>\<open>append_events\<close> stored.\<close>

definition roundtrip :: "pyval \<Rightarrow> error + pyval" where
  "roundtrip v = (case json_dumps v of Inl e \<Rightarrow> Inl e | Inr d \<Rightarrow> Inr (json_loads d))"

text \<open>
  The JSON image of a value, in the words of the amended claim C9: a UUID, a decimal and a
  timestamp are replaced by their text, the metadata by a dictionary of its fields, a
  tuple by a list, an instance of a class derived from a type JSON knows by the image of
  its value of that type, any other object that has an attribute \<^verbatim>\<open>value\<close> by the
  image of that value; strings, numbers, booleans and \<^verbatim>\<open>None\<close> stay as they are.
\<close>

definition opt_str :: "uuid option \<Rightarrow> pyval" where
  "opt_str u = (case u of None \<Rightarrow> VNone | Some x \<Rightarrow> VStr (str_uuid x))"

function (sequential) json_image :: "pyval \<Rightarrow> pyval" where
  "json_image (VUUID u) = VStr (str_uuid u)"
| "json_image (VDecimal d) = VStr (str_decimal d)"
| "json_image (VDatetime t) = VStr (isoformat t)"
| "json_image (VMetadata m) = VDict
     [(''event_id'', VStr (str_uuid (event_id m))),
      (''correlation_id'', VStr (str_uuid (correlation_id m))),
      (''timestamp'', VStr (isoformat (timestamp m))),
      (''causation_id'', opt_str (causation_id m)),
      (''user_id'', opt_str (user_id m)),
      (''schema_version'', VInt (schema_version m))]"
| "json_image (VTuple xs) = VList (map json_image xs)"
| "json_image (VList xs) = VList (map json_image xs)"
| "json_image (VDict kvs) = VDict (map (\<lambda>(k, v). (k, json_image v)) kvs)"
| "json_image (VObject c attrs) =
     (case map_of attrs ''value'' of Some v \<Rightarrow> json_image v | None \<Rightarrow> VObject c attrs)"
| "json_image (VSub c base attrs) = json_image base"
| "json_image v = v"
  by pat_completeness auto
termination
proof (relation "measure weight")
  show "wf (measure weight)" by simp
qed (auto simp: less_Suc_eq_le dest: weight_mem weight_mem_snd map_of_SomeD)

text \<open>What decoding the payload of \<open>account_created\<close> gives.\<close>

definition account_created_decoded :: pyval where
  "account_created_decoded = VDict
     [(''aggregate_id'', VStr ''018f3a1c-0000-7000-8000-0000000000a1''),
      (''metadata'', VDict
         [(''event_id'', VStr ''018f3a1c-0000-7000-8000-0000000000e1''),
          (''correlation_id'', VStr ''018f3a1c-0000-7000-8000-0000000000c1''),
          (''timestamp'', VStr ''2024-05-02T10:15:30.250000+00:00''),
          (''causation_id'', VNone), (''user_id'', VNone), (''schema_version'', VInt 1)]),
      (''account_name'', VStr ''Ops''),
      (''account_type'', VStr ''checking''),
      (''currency'', VStr ''NOK''),
      (''initial_balance'', VStr ''10000.00''),
      (''organization_id'', VNone),
      (''department_id'', VNone)]"

text \<open>
  The rows of a batch that are sent and deleted when no exception ends the batch: the send
  returns and the \<^verbatim>\<open>DELETE\<close> returns. The first send of the batch is the call number
  \<open>n\<close> of the producer.
\<close>

fun handled ::
  "(int \<Rightarrow> error option) \<Rightarrow> (nat \<Rightarrow> kafka_message \<Rightarrow> error option) \<Rightarrow> nat
     \<Rightarrow> outbox_row list \<Rightarrow> outbox_row list" where
  "handled dr w n [] = []"
| "handled dr w n (row # rows) =
     (if w n (message_of row) = None \<and> dr (o_id row) = None then [row] else []) @
     handled dr w (Suc n) rows"

text \<open>
  Whatever is raised while the rows of a batch are handled is an \<^verbatim>\<open>Exception\<close>: for
  every row, what its send raises and, when the send returns, what its \<^verbatim>\<open>DELETE\<close>
  raises. The first send of the batch is the call number \<open>n\<close> of the producer.
\<close>

fun caught :: "error option \<Rightarrow> bool" where
  "caught None = True"
| "caught (Some e) = is_Exception e"

fun batch_caught ::
  "(int \<Rightarrow> error option) \<Rightarrow> (nat \<Rightarrow> kafka_message \<Rightarrow> error option) \<Rightarrow> nat
     \<Rightarrow> outbox_row list \<Rightarrow> bool" where
  "batch_caught dr w n [] = True"
| "batch_caught dr w n (row # rows) =
     ((case w n (message_of row) of Some e \<Rightarrow> is_Exception e | None \<Rightarrow> caught (dr (o_id row))) \<and>
      batch_caught dr w (Suc n) rows)"

text \<open>
  Three producers: one whose first call fails, one that acknowledges every call, one whose
  first call is cancelled. Two connections: one on which no \<^verbatim>\<open>DELETE\<close> raises, one on
  which the \<^verbatim>\<open>DELETE\<close> of the row 1 does.
\<close>

definition flaky_producer :: kafka_producer where
  "flaky_producer = \<lparr>calls = [], send_raises = (\<lambda>n m. if n = 0 then Some KafkaError else None)\<rparr>"

definition reliable_producer :: kafka_producer where
  "reliable_producer = \<lparr>calls = [], send_raises = (\<lambda>n m. None)\<rparr>"


definition no_faults :: "int \<Rightarrow> error option" where
  "no_faults i = None"


text \<open>
  Histories. An operation is a call of \<^verbatim>\<open>append_events\<close>, a call of
  \<^verbatim>\<open>process_outbox\<close> (with the order the server gives to ties, what its
  \<^verbatim>\<open>DELETE\<close>s raise, and a producer) or the passing of time on the server; \<open>run\<close> performs a list of operations, one after the
  other, on a database.
\<close>

datatype operation =
    Append uuid string int "DomainEvent list" uuid
  | Relay "outbox_row \<Rightarrow> nat" "int \<Rightarrow> error option" kafka_producer int
  | Tick nat

fun step :: "operation \<Rightarrow> database \<Rightarrow> database" where
  "step (Append aid atype expected_version new_events tid) db =
     snd (append_events db aid atype expected_version new_events tid)"
| "step (Relay tie dr p batch_size) db = fst (snd (process_outbox tie dr db p batch_size))"
| "step (Tick d) db = db\<lparr>now := now db + int d\<rparr>"

definition run :: "operation list \<Rightarrow> database \<Rightarrow> database" where
  "run ops db = fold step ops db"

text \<open>
  The versions of every stream, in the order of insertion, are \<open>1, 2, \<dots>, N\<close>: the
  invariant that \<^verbatim>\<open>append_events\<close> maintains.
\<close>

definition contiguous :: "database \<Rightarrow> bool" where
  "contiguous db = (\<forall>a t. map e_version (stream db a t) = [1..int (length (stream db a t))])"

text \<open>\<^verbatim>\<open>d[k]\<close> on a dictionary.\<close>

fun dict_get :: "pyval \<Rightarrow> string \<Rightarrow> pyval option" where
  "dict_get (VDict kvs) k = map_of kvs k"
| "dict_get v k = None"

text \<open>
  A history with two tenants that use the same aggregate id: tenant A appends two events,
  tenant B appends one, the relay runs, and tenant A appends a third event whose timestamp
  is earlier than those of the first two.
\<close>

definition account_created_b :: DomainEvent where
  "account_created_b =
     account_created\<lparr>metadata := example_metadata\<lparr>event_id := UUID ''018f3a1c-0000-7000-8000-0000000000e3''\<rparr>\<rparr>"

definition account_closed :: DomainEvent where
  "account_closed =
     \<lparr>class_name = ''AccountClosed'',
      aggregate_id = UUID ''018f3a1c-0000-7000-8000-0000000000a1'',
      metadata = example_metadata
        \<lparr>event_id := UUID ''018f3a1c-0000-7000-8000-0000000000e4'',
         timestamp := Datetime ''2024-05-01T08:00:00+00:00''\<rparr>,
      event_fields = [(''reason'', VStr ''moved''), (''final_balance'', VDecimal (Decimal ''0.00''))]\<rparr>"

definition history :: "operation list" where
  "history =
     [Append account_id ''Account'' 0 [account_created, account_renamed] tenant_a,
      Tick 7,
      Append account_id ''Account'' 0 [account_created_b] tenant_b,
      Relay (\<lambda>r. 0) no_faults flaky_producer 10,
      Append account_id ''Account'' 2 [account_closed] tenant_a]"

definition history_db :: database where
  "history_db = run history (empty_database 5)"

text \<open>
  The ids of the outbox rows are distinct and below the next value of the sequence: the
  invariant that justifies reading \<^verbatim>\<open>DELETE FROM outbox WHERE id = $1\<close> as the removal
  of one row.
\<close>

definition outbox_ids_ok :: "database \<Rightarrow> bool" where
  "outbox_ids_ok db =
     (distinct (map o_id (outbox db)) \<and> list_all (\<lambda>r. o_id r < outbox_id_seq db) (outbox db))"

section \<open>Properties of the loops\<close>

lemma length_event_rows [simp]: "length (event_rows aid atype tid v eds) = length eds"
  by (induction eds arbitrary: v) auto

lemma length_outbox_rows [simp]: "length (outbox_rows atype tid t i eds) = length eds"
  by (induction eds arbitrary: i) auto

lemma nth_event_rows:
  "i < length eds \<Longrightarrow> event_rows aid atype tid v eds ! i =
     \<lparr>e_event_id = event_id (metadata (fst (eds ! i))), e_aggregate_id = aid,
      e_aggregate_type = atype, e_event_type = class_name (fst (eds ! i)),
      e_event_data = snd (eds ! i), e_version = v + 1 + int i, e_tenant_id = tid,
      e_created_at = timestamp (metadata (fst (eds ! i)))\<rparr>"
proof (induction eds arbitrary: v i)
  case Nil
  then show ?case by simp
next
  case (Cons ed eds)
  obtain e d where ed: "ed = (e, d)" by (cases ed)
  show ?case
  proof (cases i)
    case 0
    then show ?thesis by (simp add: ed)
  next
    case (Suc j)
    with Cons.prems have "j < length eds" by simp
    from Cons.IH [OF this, of "v + 1"] show ?thesis by (simp add: ed Suc)
  qed
qed

lemma nth_outbox_rows:
  "i < length eds \<Longrightarrow> outbox_rows atype tid t k eds ! i =
     \<lparr>o_id = k + int i, o_event_id = event_id (metadata (fst (eds ! i))),
      o_aggregate_type = atype, o_event_type = class_name (fst (eds ! i)),
      o_event_data = snd (eds ! i), o_tenant_id = tid, o_created_at = t\<rparr>"
proof (induction eds arbitrary: k i)
  case Nil
  then show ?case by simp
next
  case (Cons ed eds)
  obtain e d where ed: "ed = (e, d)" by (cases ed)
  show ?case
  proof (cases i)
    case 0
    then show ?thesis by (simp add: ed)
  next
    case (Suc j)
    with Cons.prems have "j < length eds" by simp
    from Cons.IH [OF this, of "k + 1"] show ?thesis by (simp add: ed Suc)
  qed
qed

lemma sequence_length: "sequence xs = Inr ys \<Longrightarrow> length ys = length xs"
  by (induction xs arbitrary: ys) (auto split: sum.splits)

lemma sequence_nth: "sequence xs = Inr ys \<Longrightarrow> i < length xs \<Longrightarrow> xs ! i = Inr (ys ! i)"
proof (induction xs arbitrary: ys i)
  case Nil
  then show ?case by simp
next
  case (Cons x xs)
  then show ?case by (cases i) (auto split: sum.splits)
qed

lemma insert_event_cases:
  "insert_event db row = (Inr u, db') \<Longrightarrow> db' = db\<lparr>events := events db @ [row]\<rparr>"
  "insert_event db row = (Inl e, db') \<Longrightarrow> db' = db"
  by (auto simp: insert_event_def split: if_splits)

text \<open>A run of the loop that returns has encoded every event and added exactly the rows
  of \<open>event_rows\<close> and \<open>outbox_rows\<close>.\<close>

lemma append_loop_Inr:
  "append_loop aid atype tid es v conn = (Inr v', conn') \<Longrightarrow>
   \<exists>ds. sequence (map (\<lambda>e. json_dumps (asdict e)) es) = Inr ds \<and>
        v' = v + int (length es) \<and>
        conn' = conn\<lparr>events := events conn @ event_rows aid atype tid v (zip es ds),
                     outbox := outbox conn @ outbox_rows atype tid (now conn) (outbox_id_seq conn) (zip es ds),
                     outbox_id_seq := outbox_id_seq conn + int (length es)\<rparr>"
proof (induction es arbitrary: v conn)
  case Nil
  then show ?case by simp
next
  case (Cons event rest)
  from Cons.prems obtain d where d: "json_dumps (asdict event) = Inr d"
    by (auto simp: Let_def split: sum.splits)
  let ?row = "\<lparr>e_event_id = event_id (metadata event), e_aggregate_id = aid,
      e_aggregate_type = atype, e_event_type = class_name event,
      e_event_data = d, e_version = v + 1, e_tenant_id = tid,
      e_created_at = timestamp (metadata event)\<rparr>"
  from Cons.prems d obtain u conn1 where ins: "insert_event conn ?row = (Inr u, conn1)"
    by (auto simp: Let_def split: sum.splits prod.splits)
  then have conn1: "conn1 = conn\<lparr>events := events conn @ [?row]\<rparr>"
    by (rule insert_event_cases)
  let ?conn2 = "insert_outbox conn1 (event_id (metadata event)) atype (class_name event) d tid"
  from Cons.prems d ins have rest: "append_loop aid atype tid rest (v + 1) ?conn2 = (Inr v', conn')"
    by (simp add: Let_def)
  from Cons.IH [OF rest] obtain ds where
    ds: "sequence (map (\<lambda>e. json_dumps (asdict e)) rest) = Inr ds"
    and v': "v' = v + 1 + int (length rest)"
    and c': "conn' = ?conn2\<lparr>events := events ?conn2 @ event_rows aid atype tid (v + 1) (zip rest ds),
                     outbox := outbox ?conn2 @ outbox_rows atype tid (now ?conn2) (outbox_id_seq ?conn2) (zip rest ds),
                     outbox_id_seq := outbox_id_seq ?conn2 + int (length rest)\<rparr>"
    by blast
  have "sequence (map (\<lambda>e. json_dumps (asdict e)) (event # rest)) = Inr (d # ds)"
    using d ds by simp
  moreover have "v' = v + int (length (event # rest))" using v' by simp
  moreover have "conn' = conn\<lparr>events := events conn @ event_rows aid atype tid v (zip (event # rest) (d # ds)),
                     outbox := outbox conn @ outbox_rows atype tid (now conn) (outbox_id_seq conn) (zip (event # rest) (d # ds)),
                     outbox_id_seq := outbox_id_seq conn + int (length (event # rest))\<rparr>"
    using c' conn1 by (simp add: insert_outbox_def)
  ultimately show ?case by blast
qed

lemma append_events_Inl:
  assumes "append_events db aid atype expected_version new_events tid = (Inl e, db')"
  shows "events db' = events db" and "outbox db' = outbox db" and "now db' = now db"
proof -
  from assms have "db' = db\<lparr>outbox_id_seq := outbox_id_seq db'\<rparr>"
    by (auto simp: append_events_def transaction_def split: prod.splits sum.splits)
  then obtain k where db': "db' = db\<lparr>outbox_id_seq := k\<rparr>" ..
  show "events db' = events db" by (simp add: db')
  show "outbox db' = outbox db" by (simp add: db')
  show "now db' = now db" by (simp add: db')
qed

lemma append_events_Inr:
  assumes "append_events db aid atype expected_version new_events tid = (Inr v, db')"
  shows "\<exists>ds. sequence (map (\<lambda>e. json_dumps (asdict e)) new_events) = Inr ds \<and>
          expected_version = current_version_of db aid tid \<and>
          v = expected_version + int (length new_events) \<and>
          db' = db\<lparr>events := events db @ event_rows aid atype tid expected_version (zip new_events ds),
                    outbox := outbox db @ outbox_rows atype tid (now db) (outbox_id_seq db) (zip new_events ds),
                    outbox_id_seq := outbox_id_seq db + int (length new_events)\<rparr>"
proof -
  from assms have cur: "expected_version = current_version_of db aid tid"
    by (auto simp: append_events_def transaction_def Let_def split: prod.splits sum.splits if_splits)
  with assms have "append_loop aid atype tid new_events expected_version db = (Inr v, db')"
    by (auto simp: append_events_def transaction_def Let_def split: prod.splits sum.splits if_splits)
  from append_loop_Inr [OF this] cur show ?thesis by blast
qed

lemma two_events_run:
  "append_events (empty_database 5) account_id ''Account'' 0
     [account_created, account_renamed] tenant_a = (Inr 2, two_events_db)"
proof -
  have "fst (append_events (empty_database 5) account_id ''Account'' 0
     [account_created, account_renamed] tenant_a) = Inr 2"
    by code_simp
  then show ?thesis
    unfolding two_events_db_def by (metis prod.collapse)
qed

lemma current_version_of_cases:
  "stream db a t = [] \<and> current_version_of db a t = 0 \<or>
   stream db a t \<noteq> [] \<and> current_version_of db a t = Max (set (map e_version (stream db a t)))"
proof (cases "map e_version (stream db a t)")
  case Nil
  then show ?thesis by (simp add: current_version_of_def)
next
  case (Cons v vs)
  then have "current_version_of db a t = fold max vs v" by (simp add: current_version_of_def)
  also have "\<dots> = Max (set (v # vs))" by (simp only: Max.set_eq_fold)
  finally show ?thesis using Cons by auto
qed

lemma current_version_of_nonneg:
  assumes "\<forall>r\<in>set (events db). 0 < e_version r"
  shows "0 \<le> current_version_of db a t"
proof -
  from current_version_of_cases [of db a t] show ?thesis
  proof
    assume "stream db a t = [] \<and> current_version_of db a t = 0"
    then show ?thesis by simp
  next
    assume *: "stream db a t \<noteq> [] \<and> current_version_of db a t = Max (set (map e_version (stream db a t)))"
    then have "Max (set (map e_version (stream db a t))) \<in> set (map e_version (stream db a t))"
      by (intro Max_in) auto
    with * have "current_version_of db a t \<in> e_version ` set (stream db a t)"
      by simp
    then obtain r where "r \<in> set (stream db a t)" "e_version r = current_version_of db a t"
      by (auto simp: image_iff)
    moreover from this have "r \<in> set (events db)" by (simp add: stream_def)
    ultimately show ?thesis using assms by force
  qed
qed

subsection \<open>The codec\<close>

lemma sequence_map_cong:
  "sequence (map f xs) = Inr ys \<Longrightarrow> (\<And>x y. x \<in> set xs \<Longrightarrow> f x = Inr y \<Longrightarrow> g y = h x)
     \<Longrightarrow> map g ys = map h xs"
proof (induction xs arbitrary: ys)
  case Nil
  then show ?case by simp
next
  case (Cons x xs)
  from Cons.prems(1) obtain y ys' where y: "f x = Inr y" and ys': "sequence (map f xs) = Inr ys'"
    and ys: "ys = y # ys'"
    by (auto split: sum.splits)
  from Cons.prems(2) [of x y] y have "g y = h x" by simp
  moreover from Cons.IH [OF ys'] Cons.prems(2) have "map g ys' = map h xs" by simp
  ultimately show ?case by (simp add: ys)
qed

lemma dumps_opt_uuid: "json_dumps (opt_uuid u) = Inr j \<Longrightarrow> json_loads j = opt_str u"
  by (cases u) (auto simp: opt_uuid_def opt_str_def)

lemma dumps_metadata:
  "json_dumps (asdict_metadata m) = Inr j \<Longrightarrow> json_loads j = json_image (VMetadata m)"
  by (auto simp: asdict_metadata_def split: sum.splits dest!: dumps_opt_uuid)

lemma json_loads_dumps:
  "json_dumps v = Inr j \<Longrightarrow> json_loads j = json_image v"
proof (induction v arbitrary: j rule: json_dumps.induct)
  case (6 xs)
  from "6.prems" obtain js where js: "sequence (map json_dumps xs) = Inr js" and j: "j = JArr js"
    by (auto split: sum.splits)
  from sequence_map_cong [OF js, of json_loads json_image] "6.IH"
  have "map json_loads js = map json_image xs" by blast
  then show ?case by (simp add: j)
next
  case (7 xs)
  from "7.prems" obtain js where js: "sequence (map json_dumps xs) = Inr js" and j: "j = JArr js"
    by (auto split: sum.splits)
  from sequence_map_cong [OF js, of json_loads json_image] "7.IH"
  have "map json_loads js = map json_image xs" by blast
  then show ?case by (simp add: j)
next
  case (8 kvs)
  let ?f = "\<lambda>(k, v). case json_dumps v of Inl e \<Rightarrow> Inl e | Inr j \<Rightarrow> Inr (k, j)"
  from "8.prems" obtain items where items: "sequence (map ?f kvs) = Inr items" and j: "j = JObj items"
    by (auto split: sum.splits)
  have "map (\<lambda>(k, j). (k, json_loads j)) items = map (\<lambda>(k, v). (k, json_image v)) kvs"
  proof (rule sequence_map_cong [OF items])
    fix x y assume x: "x \<in> set kvs" and fx: "?f x = Inr y"
    obtain k v where kv: "x = (k, v)" by (cases x)
    with fx obtain d where d: "json_dumps v = Inr d" and y: "y = (k, d)"
      by (auto split: sum.splits)
    from "8.IH" [OF x kv [symmetric] d] show "(\<lambda>(k, j). (k, json_loads j)) y = (\<lambda>(k, v). (k, json_image v)) x"
      by (simp add: kv y)
  qed
  then show ?case by (simp add: j)
next
  case (13 m)
  then show ?case by (simp add: dumps_metadata)
next
  case (14 c attrs)
  then show ?case by (auto split: option.splits)
qed auto

lemma json_image_asdict_metadata: "json_image (asdict_metadata m) = json_image (VMetadata m)"
proof -
  have "json_image (opt_uuid u) = opt_str u" for u
    by (cases u) (simp_all add: opt_uuid_def opt_str_def)
  then show ?thesis by (simp add: asdict_metadata_def)
qed

lemma json_image_asdict_inner: "json_image (asdict_inner v) = json_image v"
proof (induction v rule: asdict_inner.induct)
  case (1 m)
  then show ?case by (simp add: json_image_asdict_metadata)
next
  case (4 kvs)
  then have "map ((\<lambda>(k, v). (k, json_image v)) \<circ> (\<lambda>(k, v). (k, asdict_inner v))) kvs =
      map (\<lambda>(k, v). (k, json_image v)) kvs"
    by (intro map_cong) auto
  then show ?case by simp
qed simp_all

lemma json_image_asdict:
  "json_image (asdict event) = VDict
     ((''aggregate_id'', VStr (str_uuid (aggregate_id event))) #
      (''metadata'', json_image (VMetadata (metadata event))) #
      map (\<lambda>(k, v). (k, json_image v)) (event_fields event))"
proof -
  have "map ((\<lambda>(k, v). (k, json_image v)) \<circ> (\<lambda>(k, v). (k, asdict_inner v))) (event_fields event) =
      map (\<lambda>(k, v). (k, json_image v)) (event_fields event)"
    by (intro map_cong) (auto simp: json_image_asdict_inner)
  then show ?thesis
    by (simp add: asdict_def json_image_asdict_metadata del: json_image.simps(4))
qed

subsection \<open>The relay\<close>

lemma publish_row_eq:
  "publish_row dr row conn p =
     (case send_raises p (length (calls p)) (message_of row) of
        Some e \<Rightarrow> (Inl e, conn, p\<lparr>calls := calls p @ [message_of row]\<rparr>)
      | None \<Rightarrow>
          (case dr (o_id row) of
             Some e \<Rightarrow> (Inl e, conn, p\<lparr>calls := calls p @ [message_of row]\<rparr>)
           | None \<Rightarrow>
               (Inr (), conn\<lparr>outbox := filter (\<lambda>r. o_id r \<noteq> o_id row) (outbox conn)\<rparr>,
                p\<lparr>calls := calls p @ [message_of row]\<rparr>)))"
  by (simp add: publish_row_def send_and_wait_def delete_outbox_def split: option.splits)

text \<open>When nothing but \<^verbatim>\<open>Exception\<close>s are raised, the loop goes through all the rows.\<close>

lemma relay_loop_eq:
  assumes "batch_caught dr (send_raises p) (length (calls p)) rows"
  shows "relay_loop dr rows conn p c =
     (Inr (c + int (length (handled dr (send_raises p) (length (calls p)) rows))),
      conn\<lparr>outbox := filter (\<lambda>r. o_id r \<notin> o_id ` set (handled dr (send_raises p) (length (calls p)) rows))
                (outbox conn)\<rparr>,
      p\<lparr>calls := calls p @ map message_of rows\<rparr>)"
  using assms
proof (induction rows arbitrary: conn p c)
  case Nil
  then show ?case by simp
next
  case (Cons row rows)
  let ?p1 = "p\<lparr>calls := calls p @ [message_of row]\<rparr>"
  have p1: "send_raises ?p1 = send_raises p" "length (calls ?p1) = Suc (length (calls p))"
    by simp_all
  from Cons.prems have rest: "batch_caught dr (send_raises ?p1) (length (calls ?p1)) rows"
    by (simp add: p1)
  show ?case
  proof (cases "send_raises p (length (calls p)) (message_of row)")
    case (Some e)
    with Cons.prems have "is_Exception e" by simp
    with Some have "relay_loop dr (row # rows) conn p c = relay_loop dr rows conn ?p1 c"
      by (simp add: publish_row_eq)
    also note Cons.IH [OF rest, of conn c]
    finally show ?thesis using Some by (simp add: p1)
  next
    case None
    show ?thesis
    proof (cases "dr (o_id row)")
      case (Some e)
      with None Cons.prems have "is_Exception e" by simp
      with Some None have "relay_loop dr (row # rows) conn p c = relay_loop dr rows conn ?p1 c"
        by (simp add: publish_row_eq)
      also note Cons.IH [OF rest, of conn c]
      finally show ?thesis using Some by (simp add: p1)
    next
      case ok: None
      let ?conn1 = "conn\<lparr>outbox := filter (\<lambda>r. o_id r \<noteq> o_id row) (outbox conn)\<rparr>"
      from None ok have "relay_loop dr (row # rows) conn p c = relay_loop dr rows ?conn1 ?p1 (c + 1)"
        by (simp add: publish_row_eq)
      also note Cons.IH [OF rest, of ?conn1 "c + 1"]
      finally show ?thesis using None ok by (simp add: p1 conj_commute)
    qed
  qed
qed

text \<open>
  In any case the loop sends a prefix of the rows, in order, and deletes only rows that
  were sent and acknowledged.
\<close>

lemma relay_loop_general:
  "relay_loop dr rows conn p c = (res, conn', p') \<Longrightarrow>
     \<exists>D k. set D \<subseteq> set (handled dr (send_raises p) (length (calls p)) rows) \<and> k \<le> length rows \<and>
       conn' = conn\<lparr>outbox := filter (\<lambda>r. o_id r \<notin> o_id ` set D) (outbox conn)\<rparr> \<and>
       p' = p\<lparr>calls := calls p @ map message_of (take k rows)\<rparr>"
proof (induction rows arbitrary: conn p c)
  case Nil
  then have "set [] \<subseteq> set (handled dr (send_raises p) (length (calls p)) []) \<and> (0::nat) \<le> length ([]::outbox_row list) \<and>
       conn' = conn\<lparr>outbox := filter (\<lambda>r. o_id r \<notin> o_id ` set []) (outbox conn)\<rparr> \<and>
       p' = p\<lparr>calls := calls p @ map message_of (take 0 [])\<rparr>"
    by simp
  then show ?case by blast
next
  case (Cons row rows)
  let ?n = "length (calls p)"
  let ?p1 = "p\<lparr>calls := calls p @ [message_of row]\<rparr>"
  let ?conn1 = "conn\<lparr>outbox := filter (\<lambda>r. o_id r \<noteq> o_id row) (outbox conn)\<rparr>"
  have p1: "send_raises ?p1 = send_raises p" "length (calls ?p1) = Suc ?n"
    by simp_all
  have stop: ?case if "conn' = conn" "p' = ?p1"
  proof -
    from that have "set [] \<subseteq> set (handled dr (send_raises p) ?n (row # rows)) \<and>
       (1::nat) \<le> length (row # rows) \<and>
       conn' = conn\<lparr>outbox := filter (\<lambda>r. o_id r \<notin> o_id ` set []) (outbox conn)\<rparr> \<and>
       p' = p\<lparr>calls := calls p @ map message_of (take 1 (row # rows))\<rparr>"
      by simp
    then show ?thesis by blast
  qed
  have skip: ?case if run: "relay_loop dr rows conn ?p1 c = (res, conn', p')"
  proof -
    from Cons.IH [OF run] obtain D k where
      D: "set D \<subseteq> set (handled dr (send_raises p) (Suc ?n) rows)" and k: "k \<le> length rows"
      and c': "conn' = conn\<lparr>outbox := filter (\<lambda>r. o_id r \<notin> o_id ` set D) (outbox conn)\<rparr>"
      and p': "p' = ?p1\<lparr>calls := calls ?p1 @ map message_of (take k rows)\<rparr>"
      by (auto simp: p1)
    from D k c' p' have "set D \<subseteq> set (handled dr (send_raises p) ?n (row # rows)) \<and>
       Suc k \<le> length (row # rows) \<and>
       conn' = conn\<lparr>outbox := filter (\<lambda>r. o_id r \<notin> o_id ` set D) (outbox conn)\<rparr> \<and>
       p' = p\<lparr>calls := calls p @ map message_of (take (Suc k) (row # rows))\<rparr>"
      by auto
    then show ?thesis by blast
  qed
  show ?case
  proof (cases "send_raises p ?n (message_of row)")
    case (Some e)
    show ?thesis
    proof (cases "is_Exception e")
      case True
      with Some Cons.prems have "relay_loop dr rows conn ?p1 c = (res, conn', p')"
        by (simp add: publish_row_eq)
      then show ?thesis by (rule skip)
    next
      case False
      with Some Cons.prems have "conn' = conn" "p' = ?p1"
        by (simp_all add: publish_row_eq)
      then show ?thesis by (rule stop)
    qed
  next
    case None
    show ?thesis
    proof (cases "dr (o_id row)")
      case (Some e)
      show ?thesis
      proof (cases "is_Exception e")
        case True
        with Some None Cons.prems have "relay_loop dr rows conn ?p1 c = (res, conn', p')"
          by (simp add: publish_row_eq)
        then show ?thesis by (rule skip)
      next
        case False
        with Some None Cons.prems have "conn' = conn" "p' = ?p1"
          by (simp_all add: publish_row_eq)
        then show ?thesis by (rule stop)
      qed
    next
      case ok: None
      with None Cons.prems have run: "relay_loop dr rows ?conn1 ?p1 (c + 1) = (res, conn', p')"
        by (simp add: publish_row_eq)
      from Cons.IH [OF run] obtain D k where
        D: "set D \<subseteq> set (handled dr (send_raises p) (Suc ?n) rows)" and k: "k \<le> length rows"
        and c': "conn' = ?conn1\<lparr>outbox := filter (\<lambda>r. o_id r \<notin> o_id ` set D) (outbox ?conn1)\<rparr>"
        and p': "p' = ?p1\<lparr>calls := calls ?p1 @ map message_of (take k rows)\<rparr>"
        by (auto simp: p1)
      from D k c' p' None ok
      have "set (row # D) \<subseteq> set (handled dr (send_raises p) ?n (row # rows)) \<and>
         Suc k \<le> length (row # rows) \<and>
         conn' = conn\<lparr>outbox := filter (\<lambda>r. o_id r \<notin> o_id ` set (row # D)) (outbox conn)\<rparr> \<and>
         p' = p\<lparr>calls := calls p @ map message_of (take (Suc k) (row # rows))\<rparr>"
        by (auto simp: conj_commute)
      then show ?thesis by blast
    qed
  qed
qed




lemma sorted_order_by: "sorted (map col (order_by col tie rows))"
proof -
  have "sorted (map (\<lambda>r. (col r, tie r)) (order_by col tie rows))"
    by (simp add: order_by_def)
  then have "sorted (map fst (map (\<lambda>r. (col r, tie r)) (order_by col tie rows)))"
    by (rule sorted_map_mono) (auto simp: mono_on_def less_eq_prod_def)
  then show ?thesis by (simp add: comp_def)
qed

lemma mset_order_by [simp]: "mset (order_by col tie rows) = mset rows"
  by (simp add: order_by_def)

lemma set_order_by [simp]: "set (order_by col tie rows) = set rows"
  by (simp add: order_by_def)

lemma distinct_order_by [simp]: "distinct (order_by col tie rows) = distinct rows"
  by (simp add: order_by_def)

lemma length_order_by [simp]: "length (order_by col tie rows) = length rows"
  by (simp add: order_by_def)

lemma fetch_outbox_props:
  "length (fetch_outbox tie db n) = min (nat n) (length (outbox db))"
  "set (fetch_outbox tie db n) \<subseteq> set (outbox db)"
  "sorted (map o_created_at (fetch_outbox tie db n))"
  "distinct (outbox db) \<Longrightarrow> distinct (fetch_outbox tie db n)"
proof -
  show "length (fetch_outbox tie db n) = min (nat n) (length (outbox db))"
    by (simp add: fetch_outbox_def min.commute)
  show "set (fetch_outbox tie db n) \<subseteq> set (outbox db)"
    using set_take_subset [of "nat n" "order_by o_created_at tie (outbox db)"]
    by (simp add: fetch_outbox_def)
  show "sorted (map o_created_at (fetch_outbox tie db n))"
    using sorted_order_by [of o_created_at tie "outbox db"]
    by (simp add: fetch_outbox_def take_map [symmetric] sorted_wrt_take)
  show "distinct (outbox db) \<Longrightarrow> distinct (fetch_outbox tie db n)"
    by (simp add: fetch_outbox_def)
qed

lemma fetch_outbox_oldest:
  "\<exists>rest. mset (fetch_outbox tie db n @ rest) = mset (outbox db) \<and>
     (\<forall>r\<in>set (fetch_outbox tie db n). \<forall>r'\<in>set rest. o_created_at r \<le> o_created_at r')"
proof -
  let ?ys = "order_by o_created_at tie (outbox db)"
  let ?rest = "drop (nat n) ?ys"
  have "sorted (map o_created_at (take (nat n) ?ys @ ?rest))"
    by (simp add: sorted_order_by)
  then have "\<forall>r\<in>set (take (nat n) ?ys). \<forall>r'\<in>set ?rest. o_created_at r \<le> o_created_at r'"
    by (simp only: map_append sorted_append) auto
  moreover have "mset (take (nat n) ?ys @ ?rest) = mset (outbox db)"
    by simp
  ultimately show ?thesis unfolding fetch_outbox_def by blast
qed

lemma process_outbox_eq:
  assumes "0 \<le> batch_size"
    and "batch_caught dr (send_raises p) (length (calls p)) (fetch_outbox tie db batch_size)"
  shows "process_outbox tie dr db p batch_size =
     (Inr (int (length (handled dr (send_raises p) (length (calls p)) (fetch_outbox tie db batch_size)))),
      db\<lparr>outbox := filter (\<lambda>r. o_id r \<notin> o_id ` set (handled dr (send_raises p) (length (calls p))
              (fetch_outbox tie db batch_size))) (outbox db)\<rparr>,
      p\<lparr>calls := calls p @ map message_of (fetch_outbox tie db batch_size)\<rparr>)"
proof (cases "fetch_outbox tie db batch_size = []")
  case True
  with assms show ?thesis by (simp add: process_outbox_def)
next
  case False
  with assms show ?thesis by (simp add: process_outbox_def relay_loop_eq Let_def)
qed

lemma process_outbox_general:
  assumes "process_outbox tie dr db p batch_size = (res, db', p')"
  shows "\<exists>D k. set D \<subseteq> set (handled dr (send_raises p) (length (calls p)) (fetch_outbox tie db batch_size)) \<and>
       k \<le> length (fetch_outbox tie db batch_size) \<and>
       db' = db\<lparr>outbox := filter (\<lambda>r. o_id r \<notin> o_id ` set D) (outbox db)\<rparr> \<and>
       p' = p\<lparr>calls := calls p @ map message_of (take k (fetch_outbox tie db batch_size))\<rparr>"
proof (cases "batch_size < 0 \<or> fetch_outbox tie db batch_size = []")
  case True
  with assms have "db' = db" "p' = p"
    by (auto simp: process_outbox_def Let_def split: if_splits)
  then have "set [] \<subseteq> set (handled dr (send_raises p) (length (calls p)) (fetch_outbox tie db batch_size)) \<and>
       0 \<le> length (fetch_outbox tie db batch_size) \<and>
       db' = db\<lparr>outbox := filter (\<lambda>r. o_id r \<notin> o_id ` set []) (outbox db)\<rparr> \<and>
       p' = p\<lparr>calls := calls p @ map message_of (take 0 (fetch_outbox tie db batch_size))\<rparr>"
    by simp
  then show ?thesis by blast
next
  case False
  with assms have "relay_loop dr (fetch_outbox tie db batch_size) db p 0 = (res, db', p')"
    by (simp add: process_outbox_def Let_def)
  then show ?thesis by (rule relay_loop_general)
qed


text \<open>
  What the statement of \<^verbatim>\<open>process_outbox\<close> fetches, and that the rows are sent in the
  fetched order.
\<close>

lemma process_outbox_fetch:
  "(batch_size < 0 \<longrightarrow>
      process_outbox tie dr db p batch_size = (Inl InvalidRowCountInLimitClauseError, db, p)) \<and>
   length (fetch_outbox tie db batch_size) = min (nat batch_size) (length (outbox db)) \<and>
   sorted (map o_created_at (fetch_outbox tie db batch_size)) \<and>
   (\<exists>rest. mset (fetch_outbox tie db batch_size @ rest) = mset (outbox db) \<and>
      (\<forall>r\<in>set (fetch_outbox tie db batch_size). \<forall>r'\<in>set rest. o_created_at r \<le> o_created_at r')) \<and>
   (0 \<le> batch_size \<and>
    batch_caught dr (send_raises p) (length (calls p)) (fetch_outbox tie db batch_size) \<longrightarrow>
      calls (snd (snd (process_outbox tie dr db p batch_size))) =
        calls p @ map message_of (fetch_outbox tie db batch_size))"
proof (intro conjI impI)
  assume "batch_size < 0"
  then show "process_outbox tie dr db p batch_size = (Inl InvalidRowCountInLimitClauseError, db, p)"
    by (simp add: process_outbox_def)
next
  show "length (fetch_outbox tie db batch_size) = min (nat batch_size) (length (outbox db))"
    by (rule fetch_outbox_props)
next
  show "sorted (map o_created_at (fetch_outbox tie db batch_size))"
    by (rule fetch_outbox_props)
next
  show "\<exists>rest. mset (fetch_outbox tie db batch_size @ rest) = mset (outbox db) \<and>
      (\<forall>r\<in>set (fetch_outbox tie db batch_size). \<forall>r'\<in>set rest. o_created_at r \<le> o_created_at r')"
    by (rule fetch_outbox_oldest)
next
  assume "0 \<le> batch_size \<and>
    batch_caught dr (send_raises p) (length (calls p)) (fetch_outbox tie db batch_size)"
  then show "calls (snd (snd (process_outbox tie dr db p batch_size))) =
        calls p @ map message_of (fetch_outbox tie db batch_size)"
    by (simp add: process_outbox_eq)
qed

subsection \<open>The invariant of the versions\<close>

lemma upto_1_append: "0 \<le> v \<Longrightarrow> 0 \<le> n \<Longrightarrow> [1..v] @ [v + 1..v + n] = [1..v + n]"
proof (cases "v = 0")
  case True
  then show ?thesis by simp
next
  case False
  assume "0 \<le> v" "0 \<le> n"
  with False have "1 \<le> v" "v \<le> v + n" by simp_all
  then show ?thesis by (rule upto_split2 [symmetric])
qed

lemma versions_event_rows:
  "map e_version (event_rows aid atype tid v eds) = [v + 1..v + int (length eds)]"
proof (induction eds arbitrary: v)
  case Nil
  then show ?case by simp
next
  case (Cons ed eds)
  obtain e d where ed: "ed = (e, d)" by (cases ed)
  have "[v + 1..v + 1 + int (length eds)] = (v + 1) # [v + 1 + 1..v + 1 + int (length eds)]"
    by (rule upto_rec1) simp
  moreover have "v + int (length (ed # eds)) = v + 1 + int (length eds)" by simp
  ultimately have "[v + 1..v + int (length (ed # eds))] = (v + 1) # [v + 1 + 1..v + 1 + int (length eds)]"
    by (simp only:)
  with Cons.IH [of "v + 1"] show ?case by (simp only: ed event_rows.simps list.map event_row.simps)
qed

lemma stream_event_rows:
  "filter (\<lambda>r. e_aggregate_id r = a \<and> e_tenant_id r = t) (event_rows aid atype tid v eds) =
     (if a = aid \<and> t = tid then event_rows aid atype tid v eds else [])"
  by (induction aid atype tid v eds rule: event_rows.induct) auto

lemma contiguous_current_version:
  assumes "contiguous db"
  shows "current_version_of db a t = int (length (stream db a t))"
proof -
  from assms have v: "map e_version (stream db a t) = [1..int (length (stream db a t))]"
    by (simp add: contiguous_def)
  from current_version_of_cases [of db a t] show ?thesis
  proof (elim disjE conjE)
    assume "stream db a t = []" "current_version_of db a t = 0"
    then show ?thesis by simp
  next
    assume ne: "stream db a t \<noteq> []"
      and "current_version_of db a t = Max (set (map e_version (stream db a t)))"
    then have "current_version_of db a t = Max {1..int (length (stream db a t))}"
      by (simp only: v set_upto)
    moreover from ne have "1 \<le> int (length (stream db a t))"
      by (cases "stream db a t") simp_all
    then have "Max {1..int (length (stream db a t))} = int (length (stream db a t))"
      by (intro Max_eqI) simp_all
    ultimately show ?thesis by simp
  qed
qed

lemma contiguous_empty: "contiguous (empty_database t0)"
  by (simp add: contiguous_def stream_def empty_database_def)

lemma contiguous_events_eq: "events db' = events db \<Longrightarrow> contiguous db' = contiguous db"
  by (simp add: contiguous_def stream_def)

lemma contiguous_append_events:
  assumes "contiguous db"
  shows "contiguous (snd (append_events db aid atype expected_version new_events tid))"
proof -
  obtain r db' where res: "append_events db aid atype expected_version new_events tid = (r, db')"
    by (cases "append_events db aid atype expected_version new_events tid")
  show ?thesis
  proof (cases r)
    case (Inl e)
    with res have "events db' = events db" by (simp add: append_events_Inl)
    then have "contiguous db' = contiguous db" by (rule contiguous_events_eq)
    with assms res show ?thesis by simp
  next
    case (Inr v)
    with res append_events_Inr [of db aid atype expected_version new_events tid v db']
    obtain ds where len: "sequence (map (\<lambda>e. json_dumps (asdict e)) new_events) = Inr ds"
      and cur: "expected_version = current_version_of db aid tid"
      and db': "db' = db\<lparr>events := events db @ event_rows aid atype tid expected_version (zip new_events ds),
                    outbox := outbox db @ outbox_rows atype tid (now db) (outbox_id_seq db) (zip new_events ds),
                    outbox_id_seq := outbox_id_seq db + int (length new_events)\<rparr>"
      by blast
    let ?new = "event_rows aid atype tid expected_version (zip new_events ds)"
    from cur assms have ev: "expected_version = int (length (stream db aid tid))"
      by (simp add: contiguous_current_version)
    have "map e_version (stream db' a t) = [1..int (length (stream db' a t))]" for a t
    proof (cases "a = aid \<and> t = tid")
      case True
      then have s: "stream db' a t = stream db aid tid @ ?new"
        by (simp add: stream_def db' stream_event_rows)
      from assms have "map e_version (stream db aid tid) = [1..expected_version]"
        by (simp add: contiguous_def ev)
      with s have "map e_version (stream db' a t) =
          [1..expected_version] @ [expected_version + 1..expected_version + int (length (zip new_events ds))]"
        by (simp add: versions_event_rows)
      also have "\<dots> = [1..expected_version + int (length (zip new_events ds))]"
        by (rule upto_1_append) (simp_all add: ev)
      also have "expected_version + int (length (zip new_events ds)) = int (length (stream db' a t))"
        by (simp add: s ev)
      finally show ?thesis .
    next
      case False
      then have "stream db' a t = stream db a t"
        by (auto simp: stream_def db' stream_event_rows)
      with assms show ?thesis by (simp add: contiguous_def)
    qed
    then have "contiguous db'" by (simp add: contiguous_def)
    with res show ?thesis by simp
  qed
qed

lemma events_process_outbox: "events (fst (snd (process_outbox tie dr db p batch_size))) = events db"
proof -
  obtain res db' p' where r: "process_outbox tie dr db p batch_size = (res, db', p')"
    by (cases "process_outbox tie dr db p batch_size")
  from process_outbox_general [OF r] have "events db' = events db" by auto
  with r show ?thesis by simp
qed

lemma contiguous_step: "contiguous db \<Longrightarrow> contiguous (step op db)"
proof (cases op)
  case (Append aid atype expected_version new_events tid)
  assume "contiguous db"
  then show ?thesis by (simp add: Append contiguous_append_events)
next
  case (Relay tie dr p batch_size)
  assume "contiguous db"
  then show ?thesis
    by (simp add: Relay contiguous_events_eq [OF events_process_outbox])
next
  case (Tick d)
  assume "contiguous db"
  then show ?thesis by (simp add: Tick contiguous_def stream_def)
qed

lemma contiguous_run: "contiguous db \<Longrightarrow> contiguous (run ops db)"
  unfolding run_def by (induction ops arbitrary: db) (simp_all add: contiguous_step)

lemma order_by_strict:
  assumes "sorted_wrt (<) (map col rows)"
  shows "order_by col tie rows = rows"
proof -
  from assms have "sorted_wrt (\<lambda>x y. col x < col y) rows"
    by (simp add: sorted_wrt_map)
  then have "sorted_wrt (\<lambda>x y. (col x, tie x) \<le> (col y, tie y)) rows"
    by (rule sorted_wrt_mono_rel [rotated]) (simp add: less_eq_prod_def)
  then have "sorted (map (\<lambda>r. (col r, tie r)) rows)"
    by (simp add: sorted_wrt_map)
  then show ?thesis by (simp add: order_by_def sort_key_id_if_sorted)
qed

lemma contiguous_load_events:
  assumes "contiguous db"
  shows "order_by e_version tie (stream db a t) = stream db a t"
    and "sorted_wrt (<) (map e_version (stream db a t))"
proof -
  from assms have v: "map e_version (stream db a t) = [1..int (length (stream db a t))]"
    by (simp add: contiguous_def)
  show s: "sorted_wrt (<) (map e_version (stream db a t))"
    by (simp only: v strict_sorted_iff) simp
  then show "order_by e_version tie (stream db a t) = stream db a t"
    by (rule order_by_strict)
qed

lemma load_events_eq:
  "load_events tie db aid atype tid =
     (if stream db aid tid = [] then Inl (AggregateNotFoundError aid atype)
      else Inr (map event_dict (order_by e_version tie (stream db aid tid))))"
proof -
  have "(order_by e_version tie (stream db aid tid) = []) = (stream db aid tid = [])"
    using length_order_by [of e_version tie "stream db aid tid"] by (metis length_0_conv)
  then show ?thesis by (simp add: load_events_def Let_def)
qed

subsection \<open>The ids of the outbox\<close>

lemma ids_outbox_rows:
  "map o_id (outbox_rows atype tid t i eds) = [i..i + int (length eds) - 1]"
proof (induction eds arbitrary: i)
  case Nil
  then show ?case by simp
next
  case (Cons ed eds)
  obtain e d where ed: "ed = (e, d)" by (cases ed)
  have "[i..i + 1 + int (length eds) - 1] = i # [i + 1..i + 1 + int (length eds) - 1]"
    by (rule upto_rec1) simp
  moreover have "i + int (length (ed # eds)) - 1 = i + 1 + int (length eds) - 1" by simp
  ultimately have "[i..i + int (length (ed # eds)) - 1] = i # [i + 1..i + 1 + int (length eds) - 1]"
    by (simp only:)
  with Cons.IH [of "i + 1"] show ?case by (simp only: ed outbox_rows.simps list.map outbox_row.simps)
qed

lemma append_loop_seq:
  "append_loop aid atype tid es v conn = (r, conn') \<Longrightarrow>
     outbox_id_seq conn \<le> outbox_id_seq conn'"
proof (induction es arbitrary: v conn)
  case Nil
  then show ?case by simp
next
  case (Cons event rest)
  show ?case
  proof (cases "json_dumps (asdict event)")
    case (Inl x)
    with Cons.prems show ?thesis by (simp add: Let_def)
  next
    case (Inr d)
    let ?row = "\<lparr>e_event_id = event_id (metadata event), e_aggregate_id = aid,
      e_aggregate_type = atype, e_event_type = class_name event,
      e_event_data = d, e_version = v + 1, e_tenant_id = tid,
      e_created_at = timestamp (metadata event)\<rparr>"
    obtain q conn1 where ins: "insert_event conn ?row = (q, conn1)" by (cases "insert_event conn ?row")
    show ?thesis
    proof (cases q)
      case (Inl x)
      with ins have "conn1 = conn" by (simp add: insert_event_cases)
      with Cons.prems Inr ins Inl show ?thesis by (simp add: Let_def)
    next
      case inr: (Inr u)
      with ins have conn1: "conn1 = conn\<lparr>events := events conn @ [?row]\<rparr>"
        by (simp add: insert_event_cases)
      from Cons.prems Inr ins inr
      have "append_loop aid atype tid rest (v + 1)
              (insert_outbox conn1 (event_id (metadata event)) atype (class_name event) d tid) = (r, conn')"
        by (simp add: Let_def)
      from Cons.IH [OF this] show ?thesis by (simp add: insert_outbox_def conn1)
    qed
  qed
qed

lemma outbox_ids_empty: "outbox_ids_ok (empty_database t0)"
  by (simp add: outbox_ids_ok_def empty_database_def)

lemma outbox_ids_append_events:
  assumes "outbox_ids_ok db"
  shows "outbox_ids_ok (snd (append_events db aid atype expected_version new_events tid))"
proof -
  obtain r db' where res: "append_events db aid atype expected_version new_events tid = (r, db')"
    by (cases "append_events db aid atype expected_version new_events tid")
  show ?thesis
  proof (cases r)
    case (Inl e)
    with res have ob: "outbox db' = outbox db" by (simp add: append_events_Inl)
    have "outbox_id_seq db \<le> outbox_id_seq db'"
    proof (cases "current_version_of db aid tid = expected_version")
      case False
      with res show ?thesis by (simp add: append_events_def transaction_def)
    next
      case True
      obtain q conn where loop: "append_loop aid atype tid new_events expected_version db = (q, conn)"
        by (cases "append_loop aid atype tid new_events expected_version db")
      with res Inl True have "outbox_id_seq db' = outbox_id_seq conn"
        by (auto simp: append_events_def transaction_def split: sum.splits)
      with append_loop_seq [OF loop] show ?thesis by simp
    qed
    with assms ob have "outbox_ids_ok db'"
      by (auto simp: outbox_ids_ok_def list_all_iff)
    with res show ?thesis by simp
  next
    case (Inr v)
    with res append_events_Inr [of db aid atype expected_version new_events tid v db']
    obtain ds where ds: "sequence (map (\<lambda>e. json_dumps (asdict e)) new_events) = Inr ds"
      and db': "db' = db\<lparr>events := events db @ event_rows aid atype tid expected_version (zip new_events ds),
                    outbox := outbox db @ outbox_rows atype tid (now db) (outbox_id_seq db) (zip new_events ds),
                    outbox_id_seq := outbox_id_seq db + int (length new_events)\<rparr>"
      by blast
    from sequence_length [OF ds] have len: "length (zip new_events ds) = length new_events" by simp
    let ?new = "outbox_rows atype tid (now db) (outbox_id_seq db) (zip new_events ds)"
    have ids: "map o_id ?new = [outbox_id_seq db..outbox_id_seq db + int (length new_events) - 1]"
      by (simp only: ids_outbox_rows len)
    from assms have old: "\<forall>r\<in>set (outbox db). o_id r < outbox_id_seq db"
      and d: "distinct (map o_id (outbox db))"
      by (simp_all add: outbox_ids_ok_def list_all_iff)
    have "distinct (map o_id (outbox db) @ map o_id ?new)"
      using d old by (auto simp: ids)
    moreover have "\<forall>r\<in>set (outbox db @ ?new). o_id r < outbox_id_seq db + int (length new_events)"
    proof
      fix r assume "r \<in> set (outbox db @ ?new)"
      then consider "r \<in> set (outbox db)" | "o_id r \<in> set (map o_id ?new)" by auto
      then show "o_id r < outbox_id_seq db + int (length new_events)"
      proof cases
        case 1
        with old show ?thesis by force
      next
        case 2
        then show ?thesis by (simp only: ids set_upto) simp
      qed
    qed
    ultimately have "outbox_ids_ok db'"
      by (simp add: outbox_ids_ok_def list_all_iff db')
    with res show ?thesis by simp
  qed
qed

lemma outbox_ids_process_outbox:
  assumes "outbox_ids_ok db"
  shows "outbox_ids_ok (fst (snd (process_outbox tie dr db p batch_size)))"
proof -
  obtain res db' p' where r: "process_outbox tie dr db p batch_size = (res, db', p')"
    by (cases "process_outbox tie dr db p batch_size")
  from process_outbox_general [OF r] assms have "outbox_ids_ok db'"
    by (auto simp: outbox_ids_ok_def list_all_iff distinct_map_filter)
  with r show ?thesis by simp
qed

lemma outbox_ids_step: "outbox_ids_ok db \<Longrightarrow> outbox_ids_ok (step op db)"
proof (cases op)
  case (Append aid atype expected_version new_events tid)
  assume "outbox_ids_ok db"
  then show ?thesis by (simp add: Append outbox_ids_append_events)
next
  case (Relay tie dr p batch_size)
  assume "outbox_ids_ok db"
  then show ?thesis by (simp add: Relay outbox_ids_process_outbox)
next
  case (Tick d)
  assume "outbox_ids_ok db"
  then show ?thesis by (simp add: Tick outbox_ids_ok_def)
qed

lemma outbox_ids_run: "outbox_ids_ok db \<Longrightarrow> outbox_ids_ok (run ops db)"
  unfolding run_def by (induction ops arbitrary: db) (simp_all add: outbox_ids_step)

lemma distinct_ids_run: "distinct (map o_id (outbox (run ops (empty_database t0))))"
  using outbox_ids_run [OF outbox_ids_empty, of ops t0] by (simp add: outbox_ids_ok_def)

subsection \<open>The model of \<^verbatim>\<open>ORDER BY\<close>\<close>

lemma filter_key_singleton:
  "distinct xs \<Longrightarrow> inj_on f (set xs) \<Longrightarrow> k \<in> set xs \<Longrightarrow> filter (\<lambda>x. f k = f x) xs = [k]"
proof (induction xs)
  case Nil
  then show ?case by simp
next
  case (Cons x xs)
  show ?case
  proof (cases "x = k")
    case True
    with Cons.prems have "\<forall>y\<in>set xs. f k \<noteq> f y" by (auto simp: inj_on_def)
    then have "filter (\<lambda>x. f k = f x) xs = []" by (simp add: filter_empty_conv)
    with True show ?thesis by simp
  next
    case False
    with Cons.prems have "k \<in> set xs" "f k \<noteq> f x" by (auto simp: inj_on_def)
    with Cons show ?thesis by simp
  qed
qed

text \<open>
  Every answer SQL allows to \<^verbatim>\<open>ORDER BY col\<close> (the rows of the table, sorted by the
  column) is the answer of \<open>order_by\<close> for some \<open>tie\<close>.
\<close>

lemma order_by_complete:
  assumes "mset ys = mset rows" and "distinct rows" and "sorted (map col ys)"
  shows "\<exists>tie. order_by col tie rows = ys"
proof -
  define tie where "tie r = length (takeWhile (\<lambda>x. x \<noteq> r) ys)" for r
  let ?f = "\<lambda>r. (col r, tie r)"
  from assms(1,2) have dys: "distinct ys" by (metis mset_eq_imp_distinct_iff)
  from assms(1) have sets: "set ys = set rows" by (rule mset_eq_setD)
  have idx: "tie (ys ! i) = i" if "i < length ys" for i
  proof -
    have "takeWhile (\<lambda>x. x \<noteq> ys ! i) ys = take i ys"
      using that dys by (intro takeWhile_eq_take_P_nth) (simp_all add: nth_eq_iff_index_eq)
    with that show ?thesis by (simp add: tie_def)
  qed
  have inj: "inj_on ?f (set ys)"
  proof (rule inj_onI)
    fix a b assume a: "a \<in> set ys" and b: "b \<in> set ys" and eq: "?f a = ?f b"
    from a b obtain i j where "i < length ys" "ys ! i = a" "j < length ys" "ys ! j = b"
      by (auto simp: in_set_conv_nth)
    with eq idx show "a = b" by auto
  qed
  have "sorted (map ?f ys)"
  proof (simp only: sorted_iff_nth_mono length_map, intro allI impI)
    fix i j assume ij: "i \<le> j" "j < length ys"
    with assms(3) have "col (ys ! i) \<le> col (ys ! j)"
      by (simp add: sorted_iff_nth_mono)
    with ij idx show "map ?f ys ! i \<le> map ?f ys ! j"
      by (simp add: less_eq_prod_def)
  qed
  moreover have "filter (\<lambda>x. ?f k = ?f x) ys = filter (\<lambda>x. ?f k = ?f x) rows" if "k \<in> set ys" for k
    using filter_key_singleton [OF dys inj that] filter_key_singleton [OF assms(2), of ?f k] inj that sets
    by simp
  ultimately have "sort_key ?f rows = ys"
    using assms(1) by (intro properties_for_sort_key) auto
  then show ?thesis unfolding order_by_def by blast
qed

section \<open>The claims\<close>

text \<open>
  C1. When the current version of the stream (\<^verbatim>\<open>COALESCE(MAX(version), 0)\<close> for the
  tenant and the aggregate) differs from \<open>expected_version\<close>, \<^verbatim>\<open>append_events\<close> raises
  \<^verbatim>\<open>ConcurrencyError\<close> with the aggregate id, the expected and the current version, and
  the database is as it was. More generally, whatever exception ends the call, the
  transaction leaves the tables \<^verbatim>\<open>events\<close> and \<^verbatim>\<open>outbox\<close> as they were.
\<close>

theorem append_events_conflict:
  "(current_version_of db aid tid \<noteq> expected_version \<longrightarrow>
      append_events db aid atype expected_version new_events tid =
        (Inl (ConcurrencyError aid expected_version (current_version_of db aid tid)), db)) \<and>
   (append_events db aid atype expected_version new_events tid = (Inl e, db') \<longrightarrow>
      events db' = events db \<and> outbox db' = outbox db)"
proof (intro conjI impI)
  assume "current_version_of db aid tid \<noteq> expected_version"
  then show "append_events db aid atype expected_version new_events tid =
      (Inl (ConcurrencyError aid expected_version (current_version_of db aid tid)), db)"
    by (simp add: append_events_def transaction_def)
next
  assume "append_events db aid atype expected_version new_events tid = (Inl e, db')"
  then show "events db' = events db" by (rule append_events_Inl)
next
  assume "append_events db aid atype expected_version new_events tid = (Inl e, db')"
  then show "outbox db' = outbox db" by (rule append_events_Inl)
qed

theorem append_events_conflict_witness:
  "current_version_of (empty_database 0) account_id tenant_a \<noteq> 1 \<and>
   append_events (empty_database 0) account_id ''Account'' 1 [account_renamed] tenant_a =
     (Inl (ConcurrencyError account_id 1 0), empty_database 0) \<and>
   append_events (empty_database 0) account_id ''Account'' 0 [account_created, account_created] tenant_a =
     (Inl UniqueViolationError, (empty_database 0)\<lparr>outbox_id_seq := 2\<rparr>) \<and>
   events ((empty_database 0)\<lparr>outbox_id_seq := 2\<rparr>) = events (empty_database 0) \<and>
   outbox ((empty_database 0)\<lparr>outbox_id_seq := 2\<rparr>) = outbox (empty_database 0)"
proof -
  have cur: "current_version_of (empty_database 0) account_id tenant_a = 0"
    by code_simp
  then have ne: "current_version_of (empty_database 0) account_id tenant_a \<noteq> 1"
    by simp
  have dup: "append_events (empty_database 0) account_id ''Account'' 0 [account_created, account_created] tenant_a =
     (Inl UniqueViolationError, (empty_database 0)\<lparr>outbox_id_seq := 2\<rparr>)"
    by code_simp
  have "append_events (empty_database 0) account_id ''Account'' 1 [account_renamed] tenant_a =
     (Inl (ConcurrencyError account_id 1 (current_version_of (empty_database 0) account_id tenant_a)), empty_database 0)"
    using append_events_conflict [of "empty_database 0" account_id tenant_a 1 "''Account''" "[account_renamed]"] ne
    by blast
  then have conflict: "append_events (empty_database 0) account_id ''Account'' 1 [account_renamed] tenant_a =
     (Inl (ConcurrencyError account_id 1 0), empty_database 0)"
    by (simp only: cur)
  have rollback: "events ((empty_database 0)\<lparr>outbox_id_seq := 2\<rparr>) = events (empty_database 0) \<and>
     outbox ((empty_database 0)\<lparr>outbox_id_seq := 2\<rparr>) = outbox (empty_database 0)"
    using append_events_conflict [of "empty_database 0" account_id tenant_a 0 "''Account''"
      "[account_created, account_created]" UniqueViolationError "(empty_database 0)\<lparr>outbox_id_seq := 2\<rparr>"] dup
    by blast
  from ne conflict dup rollback show ?thesis by blast
qed

text \<open>
  C2. A call of \<^verbatim>\<open>append_events\<close> that returns has added, for each event of
  \<open>new_events\<close> and in input order, exactly one row to \<^verbatim>\<open>events\<close> and exactly one row
  to \<^verbatim>\<open>outbox\<close>; the two rows of an event carry the same \<open>event_id\<close> (the event's),
  the same \<open>event_type\<close>, the same encoded payload and the same \<open>tenant_id\<close>. A call
  that raises has added no row to either table. So after the call an event row of the call
  is there exactly when its outbox row is.
\<close>

theorem append_events_pairs:
  "(append_events db aid atype expected_version new_events tid = (Inr v, db') \<longrightarrow>
      (\<exists>ers ors. events db' = events db @ ers \<and> outbox db' = outbox db @ ors \<and>
         length ers = length new_events \<and> length ors = length new_events \<and>
         (\<forall>i<length new_events.
            e_event_id (ers ! i) = event_id (metadata (new_events ! i)) \<and>
            json_dumps (asdict (new_events ! i)) = Inr (e_event_data (ers ! i)) \<and>
            o_event_id (ors ! i) = e_event_id (ers ! i) \<and>
            o_event_type (ors ! i) = e_event_type (ers ! i) \<and>
            o_event_data (ors ! i) = e_event_data (ers ! i) \<and>
            o_tenant_id (ors ! i) = e_tenant_id (ers ! i)))) \<and>
   (append_events db aid atype expected_version new_events tid = (Inl e, db') \<longrightarrow>
      events db' = events db \<and> outbox db' = outbox db)"
proof (intro conjI impI)
  assume ok: "append_events db aid atype expected_version new_events tid = (Inr v, db')"
  from append_events_Inr [OF ok] obtain ds where
    ds: "sequence (map (\<lambda>e. json_dumps (asdict e)) new_events) = Inr ds"
    and db': "db' = db\<lparr>events := events db @ event_rows aid atype tid expected_version (zip new_events ds),
                    outbox := outbox db @ outbox_rows atype tid (now db) (outbox_id_seq db) (zip new_events ds),
                    outbox_id_seq := outbox_id_seq db + int (length new_events)\<rparr>"
    by blast
  from sequence_length [OF ds] have len: "length ds = length new_events" by simp
  let ?ers = "event_rows aid atype tid expected_version (zip new_events ds)"
  let ?ors = "outbox_rows atype tid (now db) (outbox_id_seq db) (zip new_events ds)"
  have "\<forall>i<length new_events.
            e_event_id (?ers ! i) = event_id (metadata (new_events ! i)) \<and>
            json_dumps (asdict (new_events ! i)) = Inr (e_event_data (?ers ! i)) \<and>
            o_event_id (?ors ! i) = e_event_id (?ers ! i) \<and>
            o_event_type (?ors ! i) = e_event_type (?ers ! i) \<and>
            o_event_data (?ors ! i) = e_event_data (?ers ! i) \<and>
            o_tenant_id (?ors ! i) = e_tenant_id (?ers ! i)"
  proof (intro allI impI)
    fix i assume i: "i < length new_events"
    then have iz: "i < length (zip new_events ds)" by (simp add: len)
    from sequence_nth [OF ds, of i] i
    have enc: "json_dumps (asdict (new_events ! i)) = Inr (ds ! i)" by simp
    from nth_event_rows [OF iz, of aid atype tid expected_version]
      nth_outbox_rows [OF iz, of atype tid "now db" "outbox_id_seq db"] enc i len
    show "e_event_id (?ers ! i) = event_id (metadata (new_events ! i)) \<and>
            json_dumps (asdict (new_events ! i)) = Inr (e_event_data (?ers ! i)) \<and>
            o_event_id (?ors ! i) = e_event_id (?ers ! i) \<and>
            o_event_type (?ors ! i) = e_event_type (?ers ! i) \<and>
            o_event_data (?ors ! i) = e_event_data (?ers ! i) \<and>
            o_tenant_id (?ors ! i) = e_tenant_id (?ers ! i)"
      by simp
  qed
  moreover have "events db' = events db @ ?ers" "outbox db' = outbox db @ ?ors"
    by (simp_all add: db')
  moreover have "length ?ers = length new_events" "length ?ors = length new_events"
    by (simp_all add: len)
  ultimately show "\<exists>ers ors. events db' = events db @ ers \<and> outbox db' = outbox db @ ors \<and>
         length ers = length new_events \<and> length ors = length new_events \<and>
         (\<forall>i<length new_events.
            e_event_id (ers ! i) = event_id (metadata (new_events ! i)) \<and>
            json_dumps (asdict (new_events ! i)) = Inr (e_event_data (ers ! i)) \<and>
            o_event_id (ors ! i) = e_event_id (ers ! i) \<and>
            o_event_type (ors ! i) = e_event_type (ers ! i) \<and>
            o_event_data (ors ! i) = e_event_data (ers ! i) \<and>
            o_tenant_id (ors ! i) = e_tenant_id (ers ! i))"
    by blast
next
  assume "append_events db aid atype expected_version new_events tid = (Inl e, db')"
  then show "events db' = events db" by (rule append_events_Inl)
next
  assume "append_events db aid atype expected_version new_events tid = (Inl e, db')"
  then show "outbox db' = outbox db" by (rule append_events_Inl)
qed

theorem append_events_pairs_witness:
  "append_events (empty_database 5) account_id ''Account'' 0
     [account_created, account_renamed] tenant_a = (Inr 2, two_events_db) \<and>
   length (events two_events_db) = 2 \<and> length (outbox two_events_db) = 2 \<and>
   o_event_id (outbox two_events_db ! 0) = e_event_id (events two_events_db ! 0) \<and>
   o_event_data (outbox two_events_db ! 0) = e_event_data (events two_events_db ! 0) \<and>
   o_event_id (outbox two_events_db ! 1) = event_id (metadata account_renamed) \<and>
   o_event_type (outbox two_events_db ! 1) = e_event_type (events two_events_db ! 1) \<and>
   o_tenant_id (outbox two_events_db ! 1) = e_tenant_id (events two_events_db ! 1) \<and>
   append_events (empty_database 0) account_id ''Account'' 0 [account_created, account_created] tenant_a =
     (Inl UniqueViolationError, (empty_database 0)\<lparr>outbox_id_seq := 2\<rparr>) \<and>
   events ((empty_database 0)\<lparr>outbox_id_seq := 2\<rparr>) = [] \<and>
   outbox ((empty_database 0)\<lparr>outbox_id_seq := 2\<rparr>) = []"
proof -
  note run = two_events_run
  have dup: "append_events (empty_database 0) account_id ''Account'' 0 [account_created, account_created] tenant_a =
     (Inl UniqueViolationError, (empty_database 0)\<lparr>outbox_id_seq := 2\<rparr>)"
    by code_simp
  from append_events_pairs [of "empty_database 5" account_id "''Account''" 0
      "[account_created, account_renamed]" tenant_a 2 two_events_db] run
  obtain ers ors where
    ev: "events two_events_db = events (empty_database 5) @ ers"
    and ob: "outbox two_events_db = outbox (empty_database 5) @ ors"
    and len: "length ers = length [account_created, account_renamed]"
      "length ors = length [account_created, account_renamed]"
    and rows: "\<forall>i<length [account_created, account_renamed].
        e_event_id (ers ! i) = event_id (metadata ([account_created, account_renamed] ! i)) \<and>
        json_dumps (asdict ([account_created, account_renamed] ! i)) = Inr (e_event_data (ers ! i)) \<and>
        o_event_id (ors ! i) = e_event_id (ers ! i) \<and>
        o_event_type (ors ! i) = e_event_type (ers ! i) \<and>
        o_event_data (ors ! i) = e_event_data (ers ! i) \<and>
        o_tenant_id (ors ! i) = e_tenant_id (ers ! i)"
    by blast
  from ev ob have eq: "events two_events_db = ers" "outbox two_events_db = ors"
    by (simp_all add: empty_database_def)
  from append_events_pairs [of "empty_database 0" account_id "''Account''" 0
      "[account_created, account_created]" tenant_a _ "(empty_database 0)\<lparr>outbox_id_seq := 2\<rparr>"
      UniqueViolationError] dup
  have rb: "events ((empty_database 0)\<lparr>outbox_id_seq := 2\<rparr>) = events (empty_database 0)"
    "outbox ((empty_database 0)\<lparr>outbox_id_seq := 2\<rparr>) = outbox (empty_database 0)"
    by blast+
  have e0: "events (empty_database 0) = []" "outbox (empty_database 0) = []"
    by (simp_all add: empty_database_def)
  from rows [rule_format, of 0] rows [rule_format, of 1] len rb
  show ?thesis by (simp add: run dup eq e0)
qed

text \<open>
  C3. A call of \<^verbatim>\<open>append_events\<close> that returns had \<open>expected_version\<close> equal to the
  current version; it returns the current version plus the number of events, and the
  event at position \<open>i\<close> of \<open>new_events\<close> (counting from 0, so the \<open>(i+1)\<close>-th event) is
  inserted, in input order, after the rows already there, with the version
  \<open>current_version + (i + 1)\<close>.
\<close>

theorem append_events_versions:
  assumes "append_events db aid atype expected_version new_events tid = (Inr v, db')"
  shows "expected_version = current_version_of db aid tid \<and>
         v = current_version_of db aid tid + int (length new_events) \<and>
         (\<exists>rows. events db' = events db @ rows \<and> length rows = length new_events \<and>
            (\<forall>i<length new_events.
               e_version (rows ! i) = current_version_of db aid tid + (int i + 1) \<and>
               e_event_id (rows ! i) = event_id (metadata (new_events ! i)) \<and>
               e_aggregate_id (rows ! i) = aid \<and> e_tenant_id (rows ! i) = tid))"
proof -
  from append_events_Inr [OF assms] obtain ds where
    ds: "sequence (map (\<lambda>e. json_dumps (asdict e)) new_events) = Inr ds"
    and cur: "expected_version = current_version_of db aid tid"
    and v: "v = expected_version + int (length new_events)"
    and db': "db' = db\<lparr>events := events db @ event_rows aid atype tid expected_version (zip new_events ds),
                    outbox := outbox db @ outbox_rows atype tid (now db) (outbox_id_seq db) (zip new_events ds),
                    outbox_id_seq := outbox_id_seq db + int (length new_events)\<rparr>"
    by blast
  from sequence_length [OF ds] have len: "length ds = length new_events" by simp
  let ?rows = "event_rows aid atype tid expected_version (zip new_events ds)"
  have "events db' = events db @ ?rows" by (simp add: db')
  moreover have "length ?rows = length new_events" by (simp add: len)
  moreover have "\<forall>i<length new_events.
               e_version (?rows ! i) = current_version_of db aid tid + (int i + 1) \<and>
               e_event_id (?rows ! i) = event_id (metadata (new_events ! i)) \<and>
               e_aggregate_id (?rows ! i) = aid \<and> e_tenant_id (?rows ! i) = tid"
  proof (intro allI impI)
    fix i assume i: "i < length new_events"
    then have "i < length (zip new_events ds)" by (simp add: len)
    from nth_event_rows [OF this, of aid atype tid expected_version] i len
    show "e_version (?rows ! i) = current_version_of db aid tid + (int i + 1) \<and>
               e_event_id (?rows ! i) = event_id (metadata (new_events ! i)) \<and>
               e_aggregate_id (?rows ! i) = aid \<and> e_tenant_id (?rows ! i) = tid"
      by (simp add: cur)
  qed
  ultimately show ?thesis using cur v by blast
qed

theorem append_events_versions_witness:
  "append_events (empty_database 5) account_id ''Account'' 0
     [account_created, account_renamed] tenant_a = (Inr 2, two_events_db) \<and>
   current_version_of (empty_database 5) account_id tenant_a = 0 \<and>
   length (events two_events_db) = 2 \<and>
   e_version (events two_events_db ! 0) = 1 \<and>
   e_version (events two_events_db ! 1) = 2 \<and>
   e_event_id (events two_events_db ! 1) = event_id (metadata account_renamed)"
proof -
  note run = two_events_run
  from append_events_versions [OF run] obtain rows where
    cur: "0 = current_version_of (empty_database 5) account_id tenant_a"
    and ev: "events two_events_db = events (empty_database 5) @ rows"
    and len: "length rows = length [account_created, account_renamed]"
    and rows: "\<forall>i<length [account_created, account_renamed].
        e_version (rows ! i) = current_version_of (empty_database 5) account_id tenant_a + (int i + 1) \<and>
        e_event_id (rows ! i) = event_id (metadata ([account_created, account_renamed] ! i)) \<and>
        e_aggregate_id (rows ! i) = account_id \<and> e_tenant_id (rows ! i) = tenant_a"
    by blast
  from ev have ev': "events two_events_db = rows" by (simp add: empty_database_def)
  from rows [rule_format, of 0] rows [rule_format, of 1] cur [symmetric] len
  show ?thesis by (simp add: run ev')
qed

text \<open>
  C7, as amended. \<^verbatim>\<open>append_events\<close> checks neither argument and has no
  \<^verbatim>\<open>InvalidArgument\<close>. With no events and \<open>expected_version\<close> equal to the current
  version it returns \<open>expected_version\<close> and leaves the database as it was. With
  \<open>expected_version < 0\<close>, the stored versions being positive, it raises
  \<^verbatim>\<open>ConcurrencyError\<close> with the current version, and leaves the database as it was.
\<close>

theorem append_events_unvalidated:
  "append_events db aid atype (current_version_of db aid tid) [] tid =
     (Inr (current_version_of db aid tid), db) \<and>
   (expected_version < 0 \<and> (\<forall>r\<in>set (events db). 0 < e_version r) \<longrightarrow>
      append_events db aid atype expected_version new_events tid =
        (Inl (ConcurrencyError aid expected_version (current_version_of db aid tid)), db))"
proof (intro conjI impI)
  show "append_events db aid atype (current_version_of db aid tid) [] tid =
     (Inr (current_version_of db aid tid), db)"
    by (simp add: append_events_def transaction_def)
next
  assume neg: "expected_version < 0 \<and> (\<forall>r\<in>set (events db). 0 < e_version r)"
  then have "0 \<le> current_version_of db aid tid" by (simp add: current_version_of_nonneg)
  with neg have "current_version_of db aid tid \<noteq> expected_version" by simp
  then show "append_events db aid atype expected_version new_events tid =
        (Inl (ConcurrencyError aid expected_version (current_version_of db aid tid)), db)"
    by (simp add: append_events_def transaction_def)
qed

theorem append_events_unvalidated_witness:
  "(- 1 :: int) < 0 \<and> list_all (\<lambda>r. 0 < e_version r) (events two_events_db) \<and>
   current_version_of two_events_db account_id tenant_a = 2 \<and>
   append_events two_events_db account_id ''Account'' (- 1) [account_renamed] tenant_a =
     (Inl (ConcurrencyError account_id (- 1) 2), two_events_db) \<and>
   append_events two_events_db account_id ''Account'' 2 [] tenant_a = (Inr 2, two_events_db)"
proof -
  have pos: "list_all (\<lambda>r. 0 < e_version r) (events two_events_db)" by code_simp
  then have pos': "\<forall>r\<in>set (events two_events_db). 0 < e_version r" by (simp add: list_all_iff)
  have cur: "current_version_of two_events_db account_id tenant_a = 2" by code_simp
  from append_events_unvalidated [of two_events_db account_id "''Account''" tenant_a "- 1" "[account_renamed]"]
    pos'
  have "append_events two_events_db account_id ''Account'' 2 [] tenant_a = (Inr 2, two_events_db)"
    and "append_events two_events_db account_id ''Account'' (- 1) [account_renamed] tenant_a =
     (Inl (ConcurrencyError account_id (- 1) 2), two_events_db)"
    by (simp_all add: cur)
  with pos cur show ?thesis by simp
qed

text \<open>
  C7 as stated fails: on the empty database the append of no events with
  \<open>expected_version = 0\<close> returns 0, and the append with \<open>expected_version = -1\<close> raises
  \<^verbatim>\<open>ConcurrencyError\<close>.
\<close>

theorem append_events_unvalidated_counterexample:
  "append_events (empty_database 0) account_id ''Account'' 0 [] tenant_a = (Inr 0, empty_database 0) \<and>
   append_events (empty_database 0) account_id ''Account'' (- 1) [account_created] tenant_a =
     (Inl (ConcurrencyError account_id (- 1) 0), empty_database 0)"
  by code_simp

text \<open>
  C9, as amended. Decoding the encoded payload of a domain event gives a generic JSON
  mapping, not the event: the keys are the event's, in order; a string, number, boolean or
  \<^verbatim>\<open>None\<close> field is equal to the event's; a UUID, \<^verbatim>\<open>Decimal\<close> or \<^verbatim>\<open>datetime\<close> field
  is the string \<^verbatim>\<open>str(x)\<close> or \<^verbatim>\<open>x.isoformat()\<close> it was encoded to (the text is kept
  exactly, the type is not restored), a tuple is a list, an enum member is its string, and
  any other object with an attribute \<^verbatim>\<open>value\<close> is the image of that value. The first conjunct says so for any value, the
  second for the dictionary of an event.
\<close>

theorem payload_roundtrip:
  "(roundtrip v = Inr w \<longrightarrow> w = json_image v) \<and>
   (roundtrip (asdict event) = Inr w' \<longrightarrow>
      w' = VDict
        ((''aggregate_id'', VStr (str_uuid (aggregate_id event))) #
         (''metadata'', json_image (VMetadata (metadata event))) #
         map (\<lambda>(k, v). (k, json_image v)) (event_fields event)))"
proof (intro conjI impI)
  assume "roundtrip v = Inr w"
  then obtain j where "json_dumps v = Inr j" "w = json_loads j"
    by (auto simp: roundtrip_def split: sum.splits)
  then show "w = json_image v" by (simp add: json_loads_dumps)
next
  assume "roundtrip (asdict event) = Inr w'"
  then obtain j where "json_dumps (asdict event) = Inr j" "w' = json_loads j"
    by (auto simp: roundtrip_def split: sum.splits)
  then have "w' = json_image (asdict event)" by (simp add: json_loads_dumps)
  then show "w' = VDict
        ((''aggregate_id'', VStr (str_uuid (aggregate_id event))) #
         (''metadata'', json_image (VMetadata (metadata event))) #
         map (\<lambda>(k, v). (k, json_image v)) (event_fields event))"
    by (simp only: json_image_asdict)
qed

theorem payload_roundtrip_witness:
  "roundtrip (asdict account_created) = Inr account_created_decoded \<and>
   roundtrip (VTuple [VDecimal (Decimal ''0.10''), VInt 3]) = Inr (VList [VStr ''0.10'', VInt 3]) \<and>
   VList [VStr ''0.10'', VInt 3] = json_image (VTuple [VDecimal (Decimal ''0.10''), VInt 3]) \<and>
   account_created_decoded = VDict
        ((''aggregate_id'', VStr (str_uuid (aggregate_id account_created))) #
         (''metadata'', json_image (VMetadata (metadata account_created))) #
         map (\<lambda>(k, v). (k, json_image v)) (event_fields account_created))"
proof -
  have r1: "roundtrip (asdict account_created) = Inr account_created_decoded" by code_simp
  have r2: "roundtrip (VTuple [VDecimal (Decimal ''0.10''), VInt 3]) = Inr (VList [VStr ''0.10'', VInt 3])"
    by code_simp
  from payload_roundtrip [of "VTuple [VDecimal (Decimal ''0.10''), VInt 3]" "VList [VStr ''0.10'', VInt 3]"
      account_created account_created_decoded] r1 r2
  show ?thesis by blast
qed

text \<open>
  C9 as stated fails on the event \<open>account_created\<close>: the decoded payload is not the
  event's dictionary; a \<^verbatim>\<open>Decimal\<close> comes back as a string, and so does a timestamp.
\<close>

theorem payload_roundtrip_counterexample:
  "roundtrip (asdict account_created) \<noteq> Inr (asdict account_created) \<and>
   roundtrip (VDecimal (Decimal ''10000.00'')) = Inr (VStr ''10000.00'') \<and>
   roundtrip (VDatetime (Datetime ''2024-05-02T10:15:30.250000+00:00'')) =
     Inr (VStr ''2024-05-02T10:15:30.250000+00:00'')"
  by code_simp

text \<open>
  C5. \<^verbatim>\<open>load_events\<close> raises \<^verbatim>\<open>AggregateNotFoundError\<close>, with the aggregate id and
  type, exactly when no row matches the aggregate and the tenant. Otherwise it returns one
  dictionary per matching row, sorted by \<open>version\<close> ascending, whatever the timestamps
  are; in a database produced by any history of operations from the empty one the versions
  are strictly ascending. Each dictionary holds \<open>event_id\<close>, \<open>event_type\<close>, the decoded
  \<open>event_data\<close>, \<open>version\<close> and \<open>created_at\<close> of its row.
\<close>

theorem load_events_ordered:
  "(stream db aid tid = [] \<longrightarrow>
      load_events tie db aid atype tid = Inl (AggregateNotFoundError aid atype)) \<and>
   (stream db aid tid \<noteq> [] \<longrightarrow>
      (\<exists>rows. load_events tie db aid atype tid = Inr (map event_dict rows) \<and> rows \<noteq> [] \<and>
         mset rows = mset (stream db aid tid) \<and> sorted (map e_version rows) \<and>
         (db = run ops (empty_database t0) \<longrightarrow> sorted_wrt (<) (map e_version rows)))) \<and>
   dict_get (event_dict row) ''event_id'' = Some (VUUID (e_event_id row)) \<and>
   dict_get (event_dict row) ''event_type'' = Some (VStr (e_event_type row)) \<and>
   dict_get (event_dict row) ''event_data'' = Some (json_loads (e_event_data row)) \<and>
   dict_get (event_dict row) ''version'' = Some (VInt (e_version row)) \<and>
   dict_get (event_dict row) ''created_at'' = Some (VDatetime (e_created_at row))"
proof (intro conjI impI)
  assume "stream db aid tid = []"
  then show "load_events tie db aid atype tid = Inl (AggregateNotFoundError aid atype)"
    by (simp add: load_events_eq)
next
  assume ne: "stream db aid tid \<noteq> []"
  let ?rows = "order_by e_version tie (stream db aid tid)"
  from ne have "load_events tie db aid atype tid = Inr (map event_dict ?rows)"
    by (simp add: load_events_eq)
  moreover from ne have "?rows \<noteq> []"
    using length_order_by [of e_version tie "stream db aid tid"] by (metis length_0_conv)
  moreover have "mset ?rows = mset (stream db aid tid)" by simp
  moreover have "sorted (map e_version ?rows)" by (rule sorted_order_by)
  moreover have "db = run ops (empty_database t0) \<longrightarrow> sorted_wrt (<) (map e_version ?rows)"
  proof
    assume "db = run ops (empty_database t0)"
    then have c: "contiguous db" by (simp add: contiguous_run contiguous_empty)
    then show "sorted_wrt (<) (map e_version ?rows)"
      by (simp only: contiguous_load_events)
  qed
  ultimately show "\<exists>rows. load_events tie db aid atype tid = Inr (map event_dict rows) \<and> rows \<noteq> [] \<and>
         mset rows = mset (stream db aid tid) \<and> sorted (map e_version rows) \<and>
         (db = run ops (empty_database t0) \<longrightarrow> sorted_wrt (<) (map e_version rows))"
    by blast
qed (simp_all add: event_dict_def)

theorem load_events_ordered_witness:
  "stream history_db account_id (UUID ''no-such-tenant'') = [] \<and>
   load_events (\<lambda>r. 0) history_db account_id ''Account'' (UUID ''no-such-tenant'') =
     Inl (AggregateNotFoundError account_id ''Account'') \<and>
   stream history_db account_id tenant_a \<noteq> [] \<and>
   history_db = run history (empty_database 5) \<and>
   load_events (\<lambda>r. 0) history_db account_id ''Account'' tenant_a =
     Inr (map event_dict (stream history_db account_id tenant_a)) \<and>
   map e_version (stream history_db account_id tenant_a) = [1, 2, 3] \<and>
   map e_created_at (stream history_db account_id tenant_a) =
     [Datetime ''2024-05-02T10:15:30.250000+00:00'', Datetime ''2024-05-02T10:15:30.250000+00:00'',
      Datetime ''2024-05-01T08:00:00+00:00''] \<and>
   sorted_wrt (<) (map e_version (stream history_db account_id tenant_a))"
proof -
  have none: "stream history_db account_id (UUID ''no-such-tenant'') = []" by code_simp
  have vs: "map e_version (stream history_db account_id tenant_a) = [1, 2, 3]" by code_simp
  then have some: "stream history_db account_id tenant_a \<noteq> []" by auto
  have ts: "map e_created_at (stream history_db account_id tenant_a) =
     [Datetime ''2024-05-02T10:15:30.250000+00:00'', Datetime ''2024-05-02T10:15:30.250000+00:00'',
      Datetime ''2024-05-01T08:00:00+00:00'']" by code_simp
  have ld: "load_events (\<lambda>r. 0) history_db account_id ''Account'' tenant_a =
     Inr (map event_dict (stream history_db account_id tenant_a))" by code_simp
  note t1 = load_events_ordered [of history_db account_id "UUID ''no-such-tenant''" "\<lambda>r. 0" "''Account''",
      THEN conjunct1, rule_format, OF none]
  from load_events_ordered [of history_db account_id tenant_a "\<lambda>r. 0" "''Account''" history 5,
      THEN conjunct2, THEN conjunct1, rule_format, OF some]
  obtain rows where rows: "load_events (\<lambda>r. 0) history_db account_id ''Account'' tenant_a = Inr (map event_dict rows)"
    and strict: "history_db = run history (empty_database 5) \<longrightarrow> sorted_wrt (<) (map e_version rows)"
    by blast
  from rows ld have "map event_dict rows = map event_dict (stream history_db account_id tenant_a)" by simp
  then have "map (\<lambda>d. dict_get d ''version'') (map event_dict rows) =
      map (\<lambda>d. dict_get d ''version'') (map event_dict (stream history_db account_id tenant_a))" by simp
  then have "map (\<lambda>v. Some (VInt v)) (map e_version rows) =
      map (\<lambda>v. Some (VInt v)) (map e_version (stream history_db account_id tenant_a))"
    by (simp add: event_dict_def comp_def)
  moreover have "inj (\<lambda>v. Some (VInt v))" by (simp add: inj_def)
  ultimately have "map e_version rows = map e_version (stream history_db account_id tenant_a)"
    by (simp only: inj_map_eq_map)
  with strict have "sorted_wrt (<) (map e_version (stream history_db account_id tenant_a))"
    by (simp add: history_db_def)
  with none t1 some ld vs ts show ?thesis by (simp add: history_db_def)
qed

text \<open>
  C6. What \<^verbatim>\<open>load_events\<close> returns for a tenant does not depend on the rows of other
  tenants: it is the same on the database with those rows removed, and every dictionary
  returned comes from a row of that tenant and that aggregate. In a database produced by any
  history of operations from the empty one, the versions returned for a tenant and an
  aggregate are \<open>1, 2, \<dots>, n\<close>, also when other tenants use the same aggregate id.
\<close>

theorem load_events_tenant:
  "load_events tie (db\<lparr>events := filter (\<lambda>r. e_tenant_id r = tid) (events db)\<rparr>) aid atype tid =
     load_events tie db aid atype tid \<and>
   (load_events tie db aid atype tid = Inr recs \<longrightarrow>
      (\<exists>rows. recs = map event_dict rows \<and>
         set rows \<subseteq> {r \<in> set (events db). e_tenant_id r = tid \<and> e_aggregate_id r = aid})) \<and>
   (db = run ops (empty_database t0) \<and> load_events tie db aid atype tid = Inr recs \<longrightarrow>
      map (\<lambda>d. dict_get d ''version'') recs = map (\<lambda>v. Some (VInt v)) [1..int (length recs)])"
proof (intro conjI impI)
  have "stream (db\<lparr>events := filter (\<lambda>r. e_tenant_id r = tid) (events db)\<rparr>) aid tid = stream db aid tid"
    by (auto simp: stream_def intro: filter_cong)
  then show "load_events tie (db\<lparr>events := filter (\<lambda>r. e_tenant_id r = tid) (events db)\<rparr>) aid atype tid =
     load_events tie db aid atype tid"
    by (simp add: load_events_eq)
next
  assume "load_events tie db aid atype tid = Inr recs"
  then have "recs = map event_dict (order_by e_version tie (stream db aid tid))"
    by (simp add: load_events_eq split: if_splits)
  moreover have "set (order_by e_version tie (stream db aid tid)) \<subseteq>
      {r \<in> set (events db). e_tenant_id r = tid \<and> e_aggregate_id r = aid}"
    by (auto simp: stream_def)
  ultimately show "\<exists>rows. recs = map event_dict rows \<and>
         set rows \<subseteq> {r \<in> set (events db). e_tenant_id r = tid \<and> e_aggregate_id r = aid}"
    by blast
next
  assume a: "db = run ops (empty_database t0) \<and> load_events tie db aid atype tid = Inr recs"
  then have c: "contiguous db" by (simp add: contiguous_run contiguous_empty)
  from a have "load_events tie db aid atype tid = Inr recs" ..
  then have "recs = map event_dict (order_by e_version tie (stream db aid tid))"
    by (simp add: load_events_eq split: if_splits)
  with c have recs: "recs = map event_dict (stream db aid tid)"
    by (simp only: contiguous_load_events)
  have "map (\<lambda>d. dict_get d ''version'') recs = map (\<lambda>v. Some (VInt v)) (map e_version (stream db aid tid))"
    by (simp add: recs event_dict_def comp_def)
  also from c have "map e_version (stream db aid tid) = [1..int (length (stream db aid tid))]"
    by (simp add: contiguous_def)
  also have "length (stream db aid tid) = length recs" by (simp add: recs)
  finally show "map (\<lambda>d. dict_get d ''version'') recs = map (\<lambda>v. Some (VInt v)) [1..int (length recs)]" .
qed

theorem load_events_tenant_witness:
  "history_db = run history (empty_database 5) \<and>
   map (\<lambda>r. (e_tenant_id r, e_aggregate_id r, e_version r)) (events history_db) =
     [(tenant_a, account_id, 1), (tenant_a, account_id, 2), (tenant_b, account_id, 1),
      (tenant_a, account_id, 3)] \<and>
   load_events (\<lambda>r. 0) history_db account_id ''Account'' tenant_b =
     Inr [event_dict (events history_db ! 2)] \<and>
   map (\<lambda>d. dict_get d ''version'') [event_dict (events history_db ! 2)] = [Some (VInt 1)] \<and>
   load_events (\<lambda>r. 0) (history_db\<lparr>events := filter (\<lambda>r. e_tenant_id r = tenant_b) (events history_db)\<rparr>)
     account_id ''Account'' tenant_b = Inr [event_dict (events history_db ! 2)]"
proof -
  have ev: "map (\<lambda>r. (e_tenant_id r, e_aggregate_id r, e_version r)) (events history_db) =
     [(tenant_a, account_id, 1), (tenant_a, account_id, 2), (tenant_b, account_id, 1),
      (tenant_a, account_id, 3)]" by code_simp
  have ld: "load_events (\<lambda>r. 0) history_db account_id ''Account'' tenant_b =
     Inr [event_dict (events history_db ! 2)]" by code_simp
  note t = load_events_tenant [where tie = "\<lambda>r. 0" and db = history_db and tid = tenant_b
      and aid = account_id and atype = "''Account''"
      and recs = "[event_dict (events history_db ! 2)]" and ops = history and ?t0.0 = 5]
  from t ld have iso: "load_events (\<lambda>r. 0)
      (history_db\<lparr>events := filter (\<lambda>r. e_tenant_id r = tenant_b) (events history_db)\<rparr>)
      account_id ''Account'' tenant_b = Inr [event_dict (events history_db ! 2)]"
    by simp
  from t ld have "map (\<lambda>d. dict_get d ''version'') [event_dict (events history_db ! 2)] =
      map (\<lambda>v. Some (VInt v)) [1..int (length [event_dict (events history_db ! 2)])]"
    by (simp add: history_db_def)
  then have v: "map (\<lambda>d. dict_get d ''version'') [event_dict (events history_db ! 2)] = [Some (VInt 1)]"
    by simp
  from ev ld v iso show ?thesis by (simp add: history_db_def)
qed





text \<open>
  C8. The claim has \<^verbatim>\<open>process_outbox\<close> fetch at most \<open>batch_size\<close> rows in the order of
  \<open>created_at\<close>, then \<open>id\<close>, and send them in that order. The statement of the code orders
  by \<open>created_at\<close> only, so the code does not do that: the two outbox rows of one append
  have the same \<open>created_at\<close>, and when the server returns them with id 2 first (SQL leaves
  the order of rows with equal \<open>created_at\<close> open), \<^verbatim>\<open>process_outbox\<close> sends the second
  event before the first, whereas the order by \<open>created_at\<close>, then \<open>id\<close> is the other one.
\<close>

theorem process_outbox_tie_order:
  "map o_created_at (outbox two_events_db) = [5, 5] \<and>
   map o_id (fetch_outbox (\<lambda>r. nat (2 - o_id r)) two_events_db 10) = [2, 1] \<and>
   map key (calls (snd (snd (process_outbox (\<lambda>r. nat (2 - o_id r)) no_faults two_events_db
       reliable_producer 10)))) =
     [''018f3a1c-0000-7000-8000-0000000000e2'', ''018f3a1c-0000-7000-8000-0000000000e1''] \<and>
   map (\<lambda>r. key (message_of r))
       (take 10 (sort_key (\<lambda>r. (o_created_at r, o_id r)) (outbox two_events_db))) =
     [''018f3a1c-0000-7000-8000-0000000000e1'', ''018f3a1c-0000-7000-8000-0000000000e2'']"
  by code_simp





end
